theory Spec2Isabelle
  imports Main "HOL-Library.AList" "HOL-Library.Monad_Syntax"
begin

section \<open>The npm advisory scanner: data model\<close>

text \<open>
  A shallow embedding of the scanner's query/match/classify pipeline. Every function of
  the TypeScript sources becomes a HOL function of the same name. A thrown exception is
  the left injection of a sum: a function that may throw returns \<open>error + 'a\<close>, and a
  \<open>try { ... } catch { ... }\<close> block is the combinator \<open>try_catch\<close>. Calls to the logger
  only write diagnostics and are left out.
\<close>

datatype error =
  Error string
  | TypeError string
  | ZodError
  | SemverError string

definition try_catch :: "error + 'a \<Rightarrow> (error \<Rightarrow> error + 'a) \<Rightarrow> error + 'a" where
  "try_catch body handler = (case body of Inl e \<Rightarrow> handler e | Inr v \<Rightarrow> Inr v)"

text \<open>\<open>Bun.Security.Package\<close>: the host's description of one package to install.\<close>

record package =
  name :: string
  version :: string
  requestedRange :: string
  tarball :: string

subsection \<open>types.ts\<close>

datatype NpmSeverity = critical | high | moderate | low | info

datatype level = fatal | warn

subsection \<open>schema.ts: the advisory record\<close>

text \<open>
  \<open>NpmAdvisory\<close> is the type the schema infers. The source's field \<open>id\<close> is
  \<open>advisory_id\<close> here, \<open>name\<close> is \<open>advisory_name\<close> and \<open>module_name\<close> is
  \<open>advisory_module_name\<close>; an optional field
  is an \<open>option\<close>. An identifier is a string or a number; numbers are integers here.
\<close>

datatype advisory_id = IdString string | IdNumber int

record cvss =
  score :: int
  vectorString :: "string option"

record finding =
  finding_version :: string
  paths :: "string list"

record NpmAdvisory =
  advisory_id :: advisory_id
  title :: string
  advisory_name :: "string option"
  advisory_module_name :: "string option"
  severity :: NpmSeverity
  vulnerable_versions :: string
  patched_versions :: "string option"
  url :: string
  overview :: "string option"
  recommendation :: "string option"
  references :: "string option"
  access :: "string option"
  cwe :: "(string + string list) option"
  cves :: "string list option"
  cvss :: "cvss option"
  findings :: "finding list option"
  created :: "string option"
  updated :: "string option"
  deleted :: "bool option"
  github_advisory_id :: "string option"

subsection \<open>constants.ts\<close>

definition FATAL_SEVERITIES :: "NpmSeverity list" where
  "FATAL_SEVERITIES = [critical, high]"

definition MAX_DESCRIPTION_LENGTH :: nat where
  "MAX_DESCRIPTION_LENGTH = 200"

definition MAX_PACKAGES_PER_REQUEST :: nat where
  "MAX_PACKAGES_PER_REQUEST = 1000"

subsection \<open>severity.ts\<close>

definition isFatalSeverity :: "NpmSeverity \<Rightarrow> bool" where
  "isFatalSeverity s = (s \<in> set FATAL_SEVERITIES)"

definition mapSeverityToLevel :: "NpmSeverity \<Rightarrow> level" where
  "mapSeverityToLevel s = (if isFatalSeverity s then fatal else warn)"

subsection \<open>processor.ts\<close>

text \<open>\<open>Bun.Security.Advisory\<close>, the record handed back to the host. Its fields \<open>id\<close> and
  \<open>url\<close> are \<open>bun_id\<close> and \<open>bun_url\<close> here.\<close>

record BunAdvisory =
  bun_id :: string
  message :: string
  level :: level
  package :: string
  bun_url :: string
  description :: "string option"

text \<open>
  \<open>String(n)\<close> of an integer: its decimal digits, with a minus sign when negative.
\<close>

definition digit_char :: "nat \<Rightarrow> char" where
  "digit_char d = char_of (48 + d)"

function string_of_nat :: "nat \<Rightarrow> string" where
  "string_of_nat n =
     (if n < 10 then [digit_char n] else string_of_nat (n div 10) @ [digit_char (n mod 10)])"
  by pat_completeness auto
termination
  by (relation "measure (\<lambda>n. n)") auto

definition string_of_int :: "int \<Rightarrow> string" where
  "string_of_int i = (if i < 0 then CHR ''-'' # string_of_nat (nat (- i)) else string_of_nat (nat i))"

fun String :: "advisory_id \<Rightarrow> string" where
  "String (IdString s) = s"
| "String (IdNumber n) = string_of_int n"

text \<open>
  \<open>Bun.semver.satisfies\<close> belongs to the runtime. The processor takes it as the
  parameter \<open>satisfies\<close>: a function of the version and the range that returns a boolean or
  throws.
\<close>

type_synonym semver_satisfies = "string \<Rightarrow> string \<Rightarrow> error + bool"

definition isVersionAffected :: "semver_satisfies \<Rightarrow> string \<Rightarrow> string \<Rightarrow> error + bool" where
  "isVersionAffected satisfies v vulnerableVersions =
     try_catch (satisfies v vulnerableVersions) (\<lambda>e. Inr False)"

text \<open>
  \<open>String.prototype.trim\<close>: white space and line terminators are stripped from both ends.
  One \<open>char\<close> stands for one code unit of the string; the code units here are those up
  to 255, of which these seven are white space.
\<close>

definition isWhiteSpace :: "char \<Rightarrow> bool" where
  "isWhiteSpace c = (of_char c \<in> {9, 10, 11, 12, 13, 32, 160 :: nat})"

definition trim :: "string \<Rightarrow> string" where
  "trim s = rev (dropWhile isWhiteSpace (rev (dropWhile isWhiteSpace s)))"

text \<open>\<open>overview.match(/^[^.!?]*[.!?]/)?.[0]\<close>: the text up to the first sentence end.\<close>

fun match_first_sentence :: "string \<Rightarrow> string option" where
  "match_first_sentence [] = None"
| "match_first_sentence (c # cs) =
     (if c \<in> {CHR ''.'', CHR ''!'', CHR ''?''} then Some [c]
      else map_option ((#) c) (match_first_sentence cs))"

definition substring :: "string \<Rightarrow> nat \<Rightarrow> nat \<Rightarrow> string" where
  "substring s i j = take (max i j - min i j) (drop (min i j) s)"

definition getAdvisoryDescription :: "NpmAdvisory \<Rightarrow> string option" where
  "getAdvisoryDescription advisory =
     (if overview advisory \<noteq> None \<and> trim (the (overview advisory)) \<noteq> [] then
        (let ov = trim (the (overview advisory)) in
         if length ov \<le> MAX_DESCRIPTION_LENGTH then Some ov
         else
           (let firstSentence = match_first_sentence ov in
            if firstSentence \<noteq> None \<and> the firstSentence \<noteq> [] \<and>
               length (the firstSentence) \<le> MAX_DESCRIPTION_LENGTH
            then Some (the firstSentence)
            else Some (substring ov 0 (MAX_DESCRIPTION_LENGTH - 3) @ ''...'')))
      else if recommendation advisory \<noteq> None \<and> trim (the (recommendation advisory)) \<noteq> [] then
        (let rc = trim (the (recommendation advisory)) in
         if length rc \<le> MAX_DESCRIPTION_LENGTH then Some rc
         else Some (substring rc 0 (MAX_DESCRIPTION_LENGTH - 3) @ ''...''))
      else None)"

definition createBunAdvisory :: "NpmAdvisory \<Rightarrow> package \<Rightarrow> BunAdvisory" where
  "createBunAdvisory advisory pkg =
     \<lparr>bun_id = String (advisory_id advisory),
      message = (if title advisory \<noteq> [] then title advisory
                 else ''Security advisory '' @ String (advisory_id advisory)),
      level = mapSeverityToLevel (severity advisory),
      package = name pkg,
      bun_url = url advisory,
      description = getAdvisoryDescription advisory\<rparr>"

text \<open>
  \<open>advisory.name || advisory.module_name\<close>: an absent or empty \<open>name\<close> falls through to
  \<open>module_name\<close>; the result is falsy when that is absent or empty too.
\<close>

definition advisoryPackageName :: "NpmAdvisory \<Rightarrow> string option" where
  "advisoryPackageName advisory =
     (if advisory_name advisory \<noteq> None \<and> advisory_name advisory \<noteq> Some [] then advisory_name advisory
      else if advisory_module_name advisory \<noteq> None \<and> advisory_module_name advisory \<noteq> Some []
      then advisory_module_name advisory
      else None)"

definition pairKey :: "NpmAdvisory \<Rightarrow> package \<Rightarrow> string" where
  "pairKey advisory pkg = String (advisory_id advisory) @ '':'' @ name pkg @ ''@'' @ version pkg"

text \<open>
  The loop of \<open>processAdvisory\<close> over the packages. The list \<open>bunAdvisories\<close> and the set
  \<open>processedPairs\<close> are mutated by the source and passed along here.
\<close>

fun processAdvisory_loop ::
  "semver_satisfies \<Rightarrow> NpmAdvisory \<Rightarrow> string \<Rightarrow> package list \<Rightarrow>
   BunAdvisory list \<Rightarrow> string set \<Rightarrow> error + (BunAdvisory list \<times> string set)" where
  "processAdvisory_loop satisfies advisory pkgName [] bunAdvisories processedPairs =
     Inr (bunAdvisories, processedPairs)"
| "processAdvisory_loop satisfies advisory pkgName (pkg # pkgs) bunAdvisories processedPairs =
     (if name pkg \<noteq> pkgName
      then processAdvisory_loop satisfies advisory pkgName pkgs bunAdvisories processedPairs
      else if pairKey advisory pkg \<in> processedPairs
      then processAdvisory_loop satisfies advisory pkgName pkgs bunAdvisories processedPairs
      else
        (case isVersionAffected satisfies (version pkg) (vulnerable_versions advisory) of
           Inl e \<Rightarrow> Inl e
         | Inr affected \<Rightarrow>
             if affected
             then processAdvisory_loop satisfies advisory pkgName pkgs
                    (bunAdvisories @ [createBunAdvisory advisory pkg])
                    (insert (pairKey advisory pkg) processedPairs)
             else processAdvisory_loop satisfies advisory pkgName pkgs bunAdvisories processedPairs))"

definition processAdvisory ::
  "semver_satisfies \<Rightarrow> NpmAdvisory \<Rightarrow> package list \<Rightarrow> string set \<Rightarrow>
   error + (BunAdvisory list \<times> string set)" where
  "processAdvisory satisfies advisory packages processedPairs =
     (case advisoryPackageName advisory of
        None \<Rightarrow> Inr ([], processedPairs)
      | Some pkgName \<Rightarrow> processAdvisory_loop satisfies advisory pkgName packages [] processedPairs)"

fun processAdvisories_loop ::
  "semver_satisfies \<Rightarrow> NpmAdvisory list \<Rightarrow> package list \<Rightarrow>
   BunAdvisory list \<Rightarrow> string set \<Rightarrow> error + BunAdvisory list" where
  "processAdvisories_loop satisfies [] packages bunAdvisories processedPairs = Inr bunAdvisories"
| "processAdvisories_loop satisfies (advisory # advisories) packages bunAdvisories processedPairs =
     (case processAdvisory satisfies advisory packages processedPairs of
        Inl e \<Rightarrow> Inl e
      | Inr (matched, processedPairs') \<Rightarrow>
          processAdvisories_loop satisfies advisories packages (bunAdvisories @ matched) processedPairs')"

definition processAdvisories ::
  "semver_satisfies \<Rightarrow> NpmAdvisory list \<Rightarrow> package list \<Rightarrow> error + BunAdvisory list" where
  "processAdvisories satisfies advisories packages =
     (if advisories = [] \<or> packages = [] then Inr []
      else processAdvisories_loop satisfies advisories packages [] {})"

subsection \<open>The runtime's version matcher\<close>

text \<open>
  Modelled from the spec: \<open>Bun.semver.satisfies\<close>, the matcher of the runtime, which the
  sources only declare (types.ts) and call (processor.ts). The spec has it follow semantic
  version range satisfaction: a range is a list of clauses separated by \<open>||\<close>, a clause a
  list of comparators separated by blanks; a version satisfies the range when it satisfies
  every comparator of some clause, and a pre-release version only satisfies a clause that
  names a pre-release of the same major, minor and patch numbers. A range that cannot be
  parsed is an error. Comparators are \<open>*\<close> and a version after \<open><\<close>, \<open><=\<close>, \<open>>\<close>,
  \<open>>=\<close>, \<open>=\<close> or nothing; versions are compared by semantic version precedence.
\<close>

datatype pre_identifier = Numeric nat | Alphanumeric string

record semver =
  major :: nat
  minor :: nat
  patch :: nat
  prerelease :: "pre_identifier list"

fun split_on :: "char \<Rightarrow> string \<Rightarrow> string list" where
  "split_on sep [] = [[]]"
| "split_on sep (c # cs) =
     (if c = sep then [] # split_on sep cs
      else (case split_on sep cs of [] \<Rightarrow> [[c]] | w # ws \<Rightarrow> (c # w) # ws))"

definition is_digit :: "char \<Rightarrow> bool" where
  "is_digit c = (48 \<le> (of_char c :: nat) \<and> (of_char c :: nat) \<le> 57)"

definition is_identifier_char :: "char \<Rightarrow> bool" where
  "is_identifier_char c =
     (is_digit c \<or> c = CHR ''-'' \<or>
      (65 \<le> (of_char c :: nat) \<and> (of_char c :: nat) \<le> 90) \<or>
      (97 \<le> (of_char c :: nat) \<and> (of_char c :: nat) \<le> 122))"

definition nat_of_digits :: "string \<Rightarrow> nat" where
  "nat_of_digits s = foldl (\<lambda>n c. 10 * n + (of_char c - 48)) 0 s"

definition parse_numeric :: "string \<Rightarrow> nat option" where
  "parse_numeric s =
     (if s \<noteq> [] \<and> list_all is_digit s \<and> (length s = 1 \<or> hd s \<noteq> CHR ''0'')
      then Some (nat_of_digits s) else None)"

definition parse_identifier :: "string \<Rightarrow> pre_identifier option" where
  "parse_identifier s =
     (if s = [] then None
      else if list_all is_digit s then map_option Numeric (parse_numeric s)
      else if list_all is_identifier_char s then Some (Alphanumeric s)
      else None)"

definition parse_prerelease :: "string \<Rightarrow> pre_identifier list option" where
  "parse_prerelease s = those (map parse_identifier (split_on CHR ''.'' s))"

definition parse_version :: "string \<Rightarrow> semver option" where
  "parse_version s =
     (let body = takeWhile (\<lambda>c. c \<noteq> CHR ''+'') s;
          core = takeWhile (\<lambda>c. c \<noteq> CHR ''-'') body;
          pre = (if length core < length body then parse_prerelease (drop (Suc (length core)) body)
                 else Some [])
      in case (those (map parse_numeric (split_on CHR ''.'' core)), pre) of
           (Some [ma, mi, pa], Some ids) \<Rightarrow>
             Some \<lparr>major = ma, minor = mi, patch = pa, prerelease = ids\<rparr>
         | _ \<Rightarrow> None)"

fun string_less :: "string \<Rightarrow> string \<Rightarrow> bool" where
  "string_less [] [] = False"
| "string_less [] (d # ds) = True"
| "string_less (c # cs) [] = False"
| "string_less (c # cs) (d # ds) =
     ((of_char c :: nat) < of_char d \<or> (c = d \<and> string_less cs ds))"

fun identifier_less :: "pre_identifier \<Rightarrow> pre_identifier \<Rightarrow> bool" where
  "identifier_less (Numeric a) (Numeric b) = (a < b)"
| "identifier_less (Numeric a) (Alphanumeric b) = True"
| "identifier_less (Alphanumeric a) (Numeric b) = False"
| "identifier_less (Alphanumeric a) (Alphanumeric b) = string_less a b"

fun identifiers_less :: "pre_identifier list \<Rightarrow> pre_identifier list \<Rightarrow> bool" where
  "identifiers_less [] [] = False"
| "identifiers_less [] (y # ys) = True"
| "identifiers_less (x # xs) [] = False"
| "identifiers_less (x # xs) (y # ys) =
     (identifier_less x y \<or> (x = y \<and> identifiers_less xs ys))"

definition prerelease_less :: "pre_identifier list \<Rightarrow> pre_identifier list \<Rightarrow> bool" where
  "prerelease_less p q = (p \<noteq> [] \<and> (q = [] \<or> identifiers_less p q))"

definition version_less :: "semver \<Rightarrow> semver \<Rightarrow> bool" where
  "version_less a b =
     (major a < major b \<or> (major a = major b \<and>
       (minor a < minor b \<or> (minor a = minor b \<and>
         (patch a < patch b \<or> (patch a = patch b \<and>
            prerelease_less (prerelease a) (prerelease b)))))))"

datatype operator = LT | LE | GT | GE | EQ

datatype comparator = Any | Comparator operator semver

definition parse_comparator :: "string \<Rightarrow> comparator option" where
  "parse_comparator s =
     (if s = ''*'' then Some Any
      else if take 2 s = ''<='' then map_option (Comparator LE) (parse_version (drop 2 s))
      else if take 2 s = ''>='' then map_option (Comparator GE) (parse_version (drop 2 s))
      else if take 1 s = ''<'' then map_option (Comparator LT) (parse_version (drop 1 s))
      else if take 1 s = ''>'' then map_option (Comparator GT) (parse_version (drop 1 s))
      else if take 1 s = ''='' then map_option (Comparator EQ) (parse_version (drop 1 s))
      else map_option (Comparator EQ) (parse_version s))"

definition parse_clause :: "string \<Rightarrow> comparator list option" where
  "parse_clause s =
     (let ws = filter (\<lambda>w. w \<noteq> []) (split_on CHR '' '' s)
      in if ws = [] then None else those (map parse_comparator ws))"

fun split_clauses :: "string \<Rightarrow> string list" where
  "split_clauses [] = [[]]"
| "split_clauses [c] = [[c]]"
| "split_clauses (c # d # cs) =
     (if c = CHR ''|'' \<and> d = CHR ''|'' then [] # split_clauses cs
      else (case split_clauses (d # cs) of [] \<Rightarrow> [[c]] | w # ws \<Rightarrow> (c # w) # ws))"

definition parse_range :: "string \<Rightarrow> comparator list list option" where
  "parse_range s = those (map parse_clause (split_clauses s))"

fun comparator_test :: "comparator \<Rightarrow> semver \<Rightarrow> bool" where
  "comparator_test Any v = True"
| "comparator_test (Comparator LT c) v = version_less v c"
| "comparator_test (Comparator LE c) v = (version_less v c \<or> v = c)"
| "comparator_test (Comparator GT c) v = version_less c v"
| "comparator_test (Comparator GE c) v = (version_less c v \<or> v = c)"
| "comparator_test (Comparator EQ c) v = (v = c)"

fun names_prerelease_of :: "semver \<Rightarrow> comparator \<Rightarrow> bool" where
  "names_prerelease_of v Any = False"
| "names_prerelease_of v (Comparator opr c) =
     (prerelease c \<noteq> [] \<and> major c = major v \<and> minor c = minor v \<and> patch c = patch v)"

definition clause_satisfied :: "comparator list \<Rightarrow> semver \<Rightarrow> bool" where
  "clause_satisfied clause v =
     (list_all (\<lambda>c. comparator_test c v) clause \<and>
      (prerelease v = [] \<or> list_ex (names_prerelease_of v) clause))"

text \<open>Modelled from the spec: the matcher itself, \<open>satisfies(version, range)\<close>.\<close>

definition Bun_semver_satisfies :: semver_satisfies where
  "Bun_semver_satisfies v r =
     (case parse_range r of
        None \<Rightarrow> Inl (SemverError r)
      | Some clauses \<Rightarrow>
          (case parse_version v of
             None \<Rightarrow> Inr False
           | Some ver \<Rightarrow> Inr (list_ex (\<lambda>clause. clause_satisfied clause ver) clauses)))"

subsection \<open>schema.ts: the response schemas\<close>

text \<open>
  The decoded response body is a JSON value; an object lists its properties, each name
  once, and a number is an integer here. A schema of
  the validation library is a function that returns the validated value, or nothing when
  the data does not fit; \<open>parse\<close> throws in that case. An object schema reads the fields it
  declares and ignores the others; a field that is \<open>optional\<close> may be absent, and a field
  that is present has to fit, also when it is optional.
\<close>

datatype json =
  JNull
  | JBoolean bool
  | JNumber int
  | JString string
  | JArray "json list"
  | JObject "(string \<times> json) list"

type_synonym 'a schema = "json \<Rightarrow> 'a option"

fun z_string :: "string schema" where
  "z_string (JString s) = Some s"
| "z_string _ = None"

fun z_number :: "int schema" where
  "z_number (JNumber n) = Some n"
| "z_number _ = None"

fun z_boolean :: "bool schema" where
  "z_boolean (JBoolean b) = Some b"
| "z_boolean _ = None"

fun z_any :: "json schema" where
  "z_any j = Some j"

definition z_array :: "'a schema \<Rightarrow> 'a list schema" where
  "z_array item j = (case j of JArray xs \<Rightarrow> those (map item xs) | _ \<Rightarrow> None)"

definition z_record :: "'a schema \<Rightarrow> (string \<times> 'a) list schema" where
  "z_record item j =
     (case j of
        JObject obj \<Rightarrow> those (map (\<lambda>(k, v). map_option (Pair k) (item v)) obj)
      | _ \<Rightarrow> None)"

definition required :: "(string \<times> json) list \<Rightarrow> string \<Rightarrow> 'a schema \<Rightarrow> 'a option" where
  "required obj k item = (case map_of obj k of None \<Rightarrow> None | Some j \<Rightarrow> item j)"

definition optional :: "(string \<times> json) list \<Rightarrow> string \<Rightarrow> 'a schema \<Rightarrow> 'a option option" where
  "optional obj k item = (case map_of obj k of None \<Rightarrow> Some None | Some j \<Rightarrow> map_option Some (item j))"

fun z_id :: "advisory_id schema" where
  "z_id (JString s) = Some (IdString s)"
| "z_id (JNumber n) = Some (IdNumber n)"
| "z_id _ = None"

definition z_severity :: "NpmSeverity schema" where
  "z_severity j =
     (if j = JString ''critical'' then Some critical
      else if j = JString ''high'' then Some high
      else if j = JString ''moderate'' then Some moderate
      else if j = JString ''low'' then Some low
      else if j = JString ''info'' then Some info
      else None)"

definition z_cwe :: "(string + string list) schema" where
  "z_cwe j =
     (case z_string j of
        Some s \<Rightarrow> Some (Inl s)
      | None \<Rightarrow> map_option Inr (z_array z_string j))"

definition z_cvss :: "cvss schema" where
  "z_cvss j =
     (case j of
        JObject obj \<Rightarrow>
          do {
            s \<leftarrow> required obj ''score'' z_number;
            v \<leftarrow> optional obj ''vectorString'' z_string;
            Some \<lparr>score = s, vectorString = v\<rparr>
          }
      | _ \<Rightarrow> None)"

definition z_finding :: "finding schema" where
  "z_finding j =
     (case j of
        JObject obj \<Rightarrow>
          do {
            v \<leftarrow> required obj ''version'' z_string;
            p \<leftarrow> required obj ''paths'' (z_array z_string);
            Some \<lparr>finding_version = v, paths = p\<rparr>
          }
      | _ \<Rightarrow> None)"

definition NpmAdvisorySchema :: "NpmAdvisory schema" where
  "NpmAdvisorySchema j =
     (case j of
        JObject obj \<Rightarrow>
          do {
            f_id \<leftarrow> required obj ''id'' z_id;
            f_title \<leftarrow> required obj ''title'' z_string;
            f_name \<leftarrow> optional obj ''name'' z_string;
            f_module_name \<leftarrow> optional obj ''module_name'' z_string;
            f_severity \<leftarrow> required obj ''severity'' z_severity;
            f_vulnerable_versions \<leftarrow> required obj ''vulnerable_versions'' z_string;
            f_patched_versions \<leftarrow> optional obj ''patched_versions'' z_string;
            f_url \<leftarrow> required obj ''url'' z_string;
            f_overview \<leftarrow> optional obj ''overview'' z_string;
            f_recommendation \<leftarrow> optional obj ''recommendation'' z_string;
            f_references \<leftarrow> optional obj ''references'' z_string;
            f_access \<leftarrow> optional obj ''access'' z_string;
            f_cwe \<leftarrow> optional obj ''cwe'' z_cwe;
            f_cves \<leftarrow> optional obj ''cves'' (z_array z_string);
            f_cvss \<leftarrow> optional obj ''cvss'' z_cvss;
            f_findings \<leftarrow> optional obj ''findings'' (z_array z_finding);
            f_created \<leftarrow> optional obj ''created'' z_string;
            f_updated \<leftarrow> optional obj ''updated'' z_string;
            f_deleted \<leftarrow> optional obj ''deleted'' z_boolean;
            f_github_advisory_id \<leftarrow> optional obj ''github_advisory_id'' z_string;
            Some \<lparr>advisory_id = f_id, title = f_title, advisory_name = f_name,
              advisory_module_name = f_module_name, severity = f_severity,
              vulnerable_versions = f_vulnerable_versions,
              patched_versions = f_patched_versions, url = f_url, overview = f_overview,
              recommendation = f_recommendation, references = f_references,
              access = f_access, cwe = f_cwe, cves = f_cves, cvss = f_cvss,
              findings = f_findings, created = f_created, updated = f_updated,
              deleted = f_deleted, github_advisory_id = f_github_advisory_id\<rparr>
          }
      | _ \<Rightarrow> None)"

definition NpmAuditResponseSchema :: "(string \<times> NpmAdvisory) list schema" where
  "NpmAuditResponseSchema = z_record NpmAdvisorySchema"

text \<open>The alternative format; its fields \<open>advisories\<close> and \<open>metadata\<close> are
  \<open>alt_advisories\<close> and \<open>alt_metadata\<close> here.\<close>

record NpmAuditResponseAlt =
  alt_advisories :: "(string \<times> NpmAdvisory) list"
  alt_metadata :: "json option"

definition NpmAuditResponseAltSchema :: "NpmAuditResponseAlt schema" where
  "NpmAuditResponseAltSchema j =
     (case j of
        JObject obj \<Rightarrow>
          do {
            a \<leftarrow> required obj ''advisories'' (z_record NpmAdvisorySchema);
            m \<leftarrow> optional obj ''metadata'' z_any;
            Some \<lparr>alt_advisories = a, alt_metadata = m\<rparr>
          }
      | _ \<Rightarrow> None)"

definition parse :: "'a schema \<Rightarrow> json \<Rightarrow> error + 'a" where
  "parse schema data = (case schema data of None \<Rightarrow> Inl ZodError | Some v \<Rightarrow> Inr v)"

subsection \<open>client.ts\<close>

text \<open>
  The request payload is the object that maps a package name to its versions.
  \<open>deduplicatePackages\<close> keeps the first package of every key in a \<open>Map\<close>, whose values come
  back in insertion order.
\<close>

type_synonym NpmAuditRequest = "(string \<times> string list) list"

definition packageKey :: "package \<Rightarrow> string" where
  "packageKey pkg = name pkg @ ''@'' @ version pkg"

fun deduplicatePackages_loop ::
  "package list \<Rightarrow> (string \<times> package) list \<Rightarrow> (string \<times> package) list" where
  "deduplicatePackages_loop [] packageMap = packageMap"
| "deduplicatePackages_loop (pkg # pkgs) packageMap =
     (if map_of packageMap (packageKey pkg) = None
      then deduplicatePackages_loop pkgs (packageMap @ [(packageKey pkg, pkg)])
      else deduplicatePackages_loop pkgs packageMap)"

definition deduplicatePackages :: "package list \<Rightarrow> package list" where
  "deduplicatePackages packages = map snd (deduplicatePackages_loop packages [])"

text \<open>
  \<open>buildRequestPayload\<close> uses an object literal as its dictionary. Reading \<open>payload[k]\<close>
  looks \<open>k\<close> up among the object's own properties and then along the prototype chain: for a
  name of \<open>Object.prototype\<close> the read yields the inherited member, which is truthy and has
  no method \<open>includes\<close>, so that calling \<open>versions.includes\<close> throws a \<open>TypeError\<close>.
\<close>

definition Object_prototype :: "string list" where
  "Object_prototype =
     [''constructor'', ''__defineGetter__'', ''__defineSetter__'', ''hasOwnProperty'',
      ''__lookupGetter__'', ''__lookupSetter__'', ''isPrototypeOf'', ''propertyIsEnumerable'',
      ''toString'', ''valueOf'', ''__proto__'', ''toLocaleString'']"

datatype property = Own "string list" | Inherited | Undefined

definition get_property :: "NpmAuditRequest \<Rightarrow> string \<Rightarrow> property" where
  "get_property payload k =
     (case map_of payload k of
        Some versions \<Rightarrow> Own versions
      | None \<Rightarrow> if k \<in> set Object_prototype then Inherited else Undefined)"

fun buildRequestPayload_loop :: "package list \<Rightarrow> NpmAuditRequest \<Rightarrow> error + NpmAuditRequest" where
  "buildRequestPayload_loop [] payload = Inr payload"
| "buildRequestPayload_loop (pkg # pkgs) payload =
     (let payload1 = (if get_property payload (name pkg) = Undefined
                      then payload @ [(name pkg, [])] else payload)
      in case get_property payload1 (name pkg) of
           Own versions \<Rightarrow>
             if version pkg \<notin> set versions
             then buildRequestPayload_loop pkgs
                    (AList.update (name pkg) (versions @ [version pkg]) payload1)
             else buildRequestPayload_loop pkgs payload1
         | Inherited \<Rightarrow> Inl (TypeError ''versions.includes is not a function'')
         | Undefined \<Rightarrow> buildRequestPayload_loop pkgs payload1)"

definition buildRequestPayload :: "package list \<Rightarrow> error + NpmAuditRequest" where
  "buildRequestPayload packages = buildRequestPayload_loop packages []"

text \<open>
  Delivery is the part of \<open>executeBulkQuery\<close> that the sources do not hold: the compressed
  request is sent under the retry executor (retry.ts) and the response body is decoded.
  It is the parameter \<open>deliver\<close>, which returns the decoded body or throws.
\<close>

type_synonym delivery = "NpmAuditRequest \<Rightarrow> error + json"

definition executeBulkQuery :: "delivery \<Rightarrow> NpmAuditRequest \<Rightarrow> error + NpmAdvisory list" where
  "executeBulkQuery deliver payload =
     (case deliver payload of
        Inl e \<Rightarrow> Inl e
      | Inr data \<Rightarrow>
          (case try_catch (parse NpmAuditResponseSchema data)
                  (\<lambda>e. case parse NpmAuditResponseAltSchema data of
                          Inl e' \<Rightarrow> Inl e'
                        | Inr altData \<Rightarrow> Inr (alt_advisories altData)) of
             Inl e \<Rightarrow> Inl e
           | Inr advs \<Rightarrow> Inr (map snd advs)))"

text \<open>
  \<open>queryInBatches\<close> steps \<open>i\<close> by the batch size through the packages. The batch size is
  \<open>NPM_AUDIT_API.MAX_PACKAGES_PER_REQUEST\<close> in the source and a parameter here; with a batch
  size of zero the loop would not end, so the loop is a partial function whose value
  \<open>None\<close> stands for a run that never returns. The requests handed to \<open>executeBulkQuery\<close>
  are collected in \<open>sent\<close>, the first component of the result.
\<close>

definition slice :: "'a list \<Rightarrow> nat \<Rightarrow> nat \<Rightarrow> 'a list" where
  "slice xs i j = take (j - i) (drop i xs)"

type_synonym 'a queried = "NpmAuditRequest list \<times> (error + 'a)"

partial_function (option) queryInBatches_loop ::
  "nat \<Rightarrow> delivery \<Rightarrow> package list \<Rightarrow> nat \<Rightarrow> NpmAuditRequest list \<Rightarrow> NpmAdvisory list \<Rightarrow>
   NpmAdvisory list queried option" where
  "queryInBatches_loop batchSize deliver packages i sent advs =
     (if i < length packages then
        (let batch = slice packages i (i + batchSize) in
         case buildRequestPayload batch of
           Inl e \<Rightarrow> Some (sent, Inl e)
         | Inr payload \<Rightarrow>
             (case executeBulkQuery deliver payload of
                Inr batchAdvisories \<Rightarrow>
                  queryInBatches_loop batchSize deliver packages (i + batchSize)
                    (sent @ [payload]) (advs @ batchAdvisories)
              | Inl e \<Rightarrow>
                  queryInBatches_loop batchSize deliver packages (i + batchSize)
                    (sent @ [payload]) advs))
      else Some (sent, Inr advs))"

declare queryInBatches_loop.simps [code]

definition queryInBatches ::
  "nat \<Rightarrow> delivery \<Rightarrow> package list \<Rightarrow> NpmAdvisory list queried option" where
  "queryInBatches batchSize deliver packages =
     queryInBatches_loop batchSize deliver packages 0 [] []"

definition queryVulnerabilities ::
  "nat \<Rightarrow> delivery \<Rightarrow> package list \<Rightarrow> NpmAdvisory list queried option" where
  "queryVulnerabilities maxPackages deliver packages =
     (if packages = [] then Some ([], Inr [])
      else
        (let uniquePackages = deduplicatePackages packages in
         case buildRequestPayload uniquePackages of
           Inl e \<Rightarrow> Some ([], Inl e)
         | Inr requestPayload \<Rightarrow>
             if length uniquePackages > maxPackages
             then queryInBatches maxPackages deliver uniquePackages
             else Some ([requestPayload], executeBulkQuery deliver requestPayload)))"

subsection \<open>index.ts\<close>

text \<open>
  \<open>scanner.scan\<close>: the query and the processing run inside one \<open>try\<close> block, whose handler
  returns the empty list. \<open>scanner_scan\<close> is the scan at the configured request size.
\<close>

definition scan ::
  "nat \<Rightarrow> delivery \<Rightarrow> semver_satisfies \<Rightarrow> package list \<Rightarrow> BunAdvisory list queried option" where
  "scan maxPackages deliver satisfies packages =
     (case queryVulnerabilities maxPackages deliver packages of
        None \<Rightarrow> None
      | Some (sent, queried) \<Rightarrow>
          Some (sent,
            try_catch
              (case queried of
                 Inl e \<Rightarrow> Inl e
               | Inr advs \<Rightarrow> processAdvisories satisfies advs packages)
              (\<lambda>e. Inr [])))"

definition scanner_scan ::
  "delivery \<Rightarrow> semver_satisfies \<Rightarrow> package list \<Rightarrow> BunAdvisory list queried option" where
  "scanner_scan deliver satisfies packages = scan MAX_PACKAGES_PER_REQUEST deliver satisfies packages"

subsection \<open>Notions used to state the properties\<close>

text \<open>
  A match is an advisory together with a package it was found to affect. \<open>record_of\<close> is the
  record the processor builds for a match, \<open>key_of\<close> its de-duplication key and \<open>triple_of\<close>
  its advisory identifier, package name and package version.
\<close>

definition matched_by :: "semver_satisfies \<Rightarrow> NpmAdvisory \<Rightarrow> package \<Rightarrow> bool" where
  "matched_by satisfies advisory pkg =
     (advisoryPackageName advisory = Some (name pkg) \<and>
      satisfies (version pkg) (vulnerable_versions advisory) = Inr True)"

definition key_of :: "NpmAdvisory \<times> package \<Rightarrow> string" where
  "key_of m = pairKey (fst m) (snd m)"

definition record_of :: "NpmAdvisory \<times> package \<Rightarrow> BunAdvisory" where
  "record_of m = createBunAdvisory (fst m) (snd m)"

definition triple_of :: "NpmAdvisory \<times> package \<Rightarrow> string \<times> string \<times> string" where
  "triple_of m = (String (advisory_id (fst m)), name (snd m), version (snd m))"

text \<open>The pair of a package that the key \<open>name@version\<close> stands for.\<close>

definition name_version :: "package \<Rightarrow> string \<times> string" where
  "name_version pkg = (name pkg, version pkg)"

text \<open>
  For the request payload: \<open>versions payload n\<close> are the versions listed under the name
  \<open>n\<close>, \<open>add_version\<close> is what one round of the loop of \<open>buildRequestPayload\<close> does for a
  package whose name no object inherits, and \<open>safe_name\<close> says that a package has such a
  name.
\<close>

definition versions :: "NpmAuditRequest \<Rightarrow> string \<Rightarrow> string list" where
  "versions payload n = (case map_of payload n of None \<Rightarrow> [] | Some vs \<Rightarrow> vs)"

definition add_version :: "NpmAuditRequest \<Rightarrow> package \<Rightarrow> NpmAuditRequest" where
  "add_version payload pkg =
     (if version pkg \<in> set (versions payload (name pkg)) then payload
      else AList.update (name pkg) (versions payload (name pkg) @ [version pkg]) payload)"

definition safe_name :: "package \<Rightarrow> bool" where
  "safe_name pkg = (name pkg \<notin> set Object_prototype)"

text \<open>
  For the batches: \<open>batches k xs\<close> cuts \<open>xs\<close> into consecutive pieces of \<open>k\<close> elements (the
  last one may be shorter), \<open>the_payload\<close> is the payload built for a batch and
  \<open>batch_result\<close> what the batch adds to the result: the advisories of its query, or
  nothing when the query throws.
\<close>

function batches :: "nat \<Rightarrow> 'a list \<Rightarrow> 'a list list" where
  "batches k xs = (if k = 0 \<or> xs = [] then [] else take k xs # batches k (drop k xs))"
  by pat_completeness auto

termination
  by (relation "measure (\<lambda>(k, xs). length xs)") auto

declare batches.simps [simp del]

definition the_payload :: "package list \<Rightarrow> NpmAuditRequest" where
  "the_payload batch = (case buildRequestPayload batch of Inl e \<Rightarrow> [] | Inr payload \<Rightarrow> payload)"

definition batch_result :: "delivery \<Rightarrow> package list \<Rightarrow> NpmAdvisory list" where
  "batch_result deliver batch =
     (case executeBulkQuery deliver (the_payload batch) of Inl e \<Rightarrow> [] | Inr advs \<Rightarrow> advs)"

subsection \<open>Sample data of the test suite\<close>

text \<open>
  The advisories and packages of the repository's tests, for evaluating the functions at
  concrete inputs. \<open>minimal_advisory\<close> is an advisory with the required fields only.
\<close>

definition minimal_advisory ::
  "advisory_id \<Rightarrow> string \<Rightarrow> NpmSeverity \<Rightarrow> string \<Rightarrow> string \<Rightarrow> NpmAdvisory" where
  "minimal_advisory i t s vv u =
     \<lparr>advisory_id = i, title = t, advisory_name = None, advisory_module_name = None,
      severity = s, vulnerable_versions = vv, patched_versions = None, url = u,
      overview = None, recommendation = None, references = None, access = None, cwe = None,
      cves = None, cvss = None, findings = None, created = None, updated = None,
      deleted = None, github_advisory_id = None\<rparr>"

definition lodash_advisory :: NpmAdvisory where
  "lodash_advisory =
     (minimal_advisory (IdNumber 1) ''Test'' high ''<4.17.21'' ''https://example.com'')
       \<lparr>advisory_name := Some ''lodash''\<rparr>"

definition lodash_4_17_19 :: package where
  "lodash_4_17_19 = \<lparr>name = ''lodash'', version = ''4.17.19'', requestedRange = ''^4.0.0'',
     tarball = ''https://registry.npmjs.org/lodash/-/lodash-4.17.19.tgz''\<rparr>"

definition lodash_4_17_20 :: package where
  "lodash_4_17_20 = \<lparr>name = ''lodash'', version = ''4.17.20'', requestedRange = ''^4.0.0'',
     tarball = ''https://registry.npmjs.org/lodash/-/lodash-4.17.20.tgz''\<rparr>"

definition lodash_4_17_20_again :: package where
  "lodash_4_17_20_again = \<lparr>name = ''lodash'', version = ''4.17.20'', requestedRange = ''^4.17.0'',
     tarball = ''https://registry.npmjs.org/lodash/-/lodash-4.17.20.tgz''\<rparr>"

definition long_overview_advisory :: NpmAdvisory where
  "long_overview_advisory =
     (minimal_advisory (IdNumber 1) ''Test'' high ''*'' ''https://example.com'')
       \<lparr>advisory_name := Some ''package'', overview := Some (replicate 300 CHR ''A'')\<rparr>"

text \<open>
  A response in the standard format, one in the alternative format and one that fits
  neither schema, from the tests of the schemas; a registry that answers every request
  naming \<open>lodash\<close> with the standard response and a registry that always fails.
\<close>

definition prototype_pollution :: NpmAdvisory where
  "prototype_pollution =
     (minimal_advisory (IdNumber 1065) ''Prototype Pollution'' high ''<4.17.21''
        ''https://github.com/advisories/GHSA-xxxx'')
       \<lparr>advisory_name := Some ''lodash''\<rparr>"

definition prototype_pollution_json :: json where
  "prototype_pollution_json =
     JObject [(''id'', JNumber 1065), (''title'', JString ''Prototype Pollution''),
       (''name'', JString ''lodash''), (''severity'', JString ''high''),
       (''vulnerable_versions'', JString ''<4.17.21''),
       (''url'', JString ''https://github.com/advisories/GHSA-xxxx'')]"

definition response_standard :: json where
  "response_standard = JObject [(''1065'', prototype_pollution_json)]"

definition response_alternative :: json where
  "response_alternative =
     JObject [(''advisories'', response_standard), (''metadata'', JObject [])]"

definition response_invalid :: json where
  "response_invalid =
     JObject [(''1065'', JObject [(''id'', JNumber 1065), (''title'', JString ''Test''),
       (''vulnerable_versions'', JString ''<1.0.0''), (''url'', JString ''https://example.com'')])]"

definition lodash_registry :: delivery where
  "lodash_registry payload =
     (if versions payload ''lodash'' = [] then Inr (JObject []) else Inr response_standard)"

definition failing_registry :: delivery where
  "failing_registry payload = Inl (Error ''npm registry returned 500: Internal Server Error'')"

definition constructor_1_0_0 :: package where
  "constructor_1_0_0 = \<lparr>name = ''constructor'', version = ''1.0.0'', requestedRange = ''^1.0.0'',
     tarball = ''https://registry.npmjs.org/constructor/-/constructor-1.0.0.tgz''\<rparr>"

text \<open>
  An \<open>axios\<close> package with its advisory, and a registry that fails every request naming
  \<open>lodash\<close> and answers the others with the \<open>axios\<close> advisory.
\<close>

definition axios_0_21_0 :: package where
  "axios_0_21_0 = \<lparr>name = ''axios'', version = ''0.21.0'', requestedRange = ''^0.21.0'',
     tarball = ''https://registry.npmjs.org/axios/-/axios-0.21.0.tgz''\<rparr>"

definition request_forgery :: NpmAdvisory where
  "request_forgery =
     (minimal_advisory (IdNumber 1594) ''Server-Side Request Forgery in axios'' moderate
        ''>=0.8.1 <0.21.1'' ''https://github.com/advisories/GHSA-4w2v-q235-vp99'')
       \<lparr>advisory_name := Some ''axios''\<rparr>"

definition response_axios :: json where
  "response_axios =
     JObject [(''1594'', JObject [(''id'', JNumber 1594),
       (''title'', JString ''Server-Side Request Forgery in axios''),
       (''name'', JString ''axios''), (''severity'', JString ''moderate''),
       (''vulnerable_versions'', JString ''>=0.8.1 <0.21.1''),
       (''url'', JString ''https://github.com/advisories/GHSA-4w2v-q235-vp99'')])]"

definition lodash_failing_registry :: delivery where
  "lodash_failing_registry payload =
     (if versions payload ''lodash'' \<noteq> []
      then Inl (Error ''npm registry returned 500: Internal Server Error'')
      else Inr response_axios)"

text \<open>
  What a registry is asked and answers: \<open>requested payload\<close> are the pairs of a package
  name and a version that the payload lists, and a delivery \<open>answers_per_pair\<close> for the
  database \<open>db\<close> when its answer to every payload holds the advisories that \<open>db\<close> has for
  the requested pairs. \<open>lodash_db\<close> is the database of the registry \<open>lodash_registry\<close>, and
  \<open>many_lodash\<close> are 1001 packages with pairwise distinct versions.
\<close>

definition requested :: "NpmAuditRequest \<Rightarrow> (string \<times> string) set" where
  "requested payload = {(n, v). v \<in> set (versions payload n)}"

definition answers_per_pair :: "delivery \<Rightarrow> (string \<Rightarrow> string \<Rightarrow> NpmAdvisory set) \<Rightarrow> bool" where
  "answers_per_pair deliver db =
     (\<forall>payload. \<exists>advs. executeBulkQuery deliver payload = Inr advs \<and>
        set advs = (\<Union>(n, v)\<in>requested payload. db n v))"

definition lodash_db :: "string \<Rightarrow> string \<Rightarrow> NpmAdvisory set" where
  "lodash_db n v = (if n = ''lodash'' then {prototype_pollution} else {})"

definition many_lodash :: "package list" where
  "many_lodash =
     map (\<lambda>i. \<lparr>name = ''lodash'', version = ''4.17.'' @ string_of_nat i,
               requestedRange = ''^4.0.0'', tarball = ''https://registry.npmjs.org/lodash''\<rparr>)
       [0..<1001]"

section \<open>Severity classifier\<close>

text \<open>
  Claim C3. \<open>mapSeverityToLevel\<close> is a total function on the five severities: it
  returns \<open>fatal\<close> for \<open>critical\<close> and \<open>high\<close>, \<open>warn\<close> for \<open>moderate\<close>, \<open>low\<close> and
  \<open>info\<close>, and so \<open>fatal\<close> exactly for \<open>critical\<close> and \<open>high\<close>.
\<close>

theorem mapSeverityToLevel_table:
  "mapSeverityToLevel critical = fatal \<and> mapSeverityToLevel high = fatal \<and>
   mapSeverityToLevel moderate = warn \<and> mapSeverityToLevel low = warn \<and>
   mapSeverityToLevel info = warn \<and>
   (\<forall>s. (mapSeverityToLevel s = fatal) = (s = critical \<or> s = high))"
proof -
  have "(mapSeverityToLevel s = fatal) = (s = critical \<or> s = high)" for s
    by (cases s) (simp_all add: mapSeverityToLevel_def isFatalSeverity_def FATAL_SEVERITIES_def)
  then show ?thesis
    by (simp add: mapSeverityToLevel_def isFatalSeverity_def FATAL_SEVERITIES_def)
qed

section \<open>The loops of the processor\<close>

lemma isVersionAffected_Inr:
  "isVersionAffected sat v r = Inr (case sat v r of Inl e \<Rightarrow> False | Inr b \<Rightarrow> b)"
  by (simp add: isVersionAffected_def try_catch_def split: sum.splits)

lemma processAdvisory_loop_spec:
  "\<exists>ms. processAdvisory_loop sat a n pkgs acc seen =
          Inr (acc @ map (createBunAdvisory a) ms, seen \<union> pairKey a ` set ms) \<and>
        distinct (map (pairKey a) ms) \<and> pairKey a ` set ms \<inter> seen = {} \<and>
        set ms \<subseteq> set pkgs \<and>
        (\<forall>p\<in>set ms. name p = n \<and> sat (version p) (vulnerable_versions a) = Inr True)"
proof (induction pkgs arbitrary: acc seen)
  case Nil
  show ?case by (rule exI [of _ "[]"]) simp
next
  case (Cons pkg pkgs)
  let ?k = "pairKey a pkg"
  let ?hit = "name pkg = n \<and> ?k \<notin> seen \<and> sat (version pkg) (vulnerable_versions a) = Inr True"
  show ?case
  proof (cases ?hit)
    case False
    then have skip: "processAdvisory_loop sat a n (pkg # pkgs) acc seen =
        processAdvisory_loop sat a n pkgs acc seen"
      by (auto simp: isVersionAffected_Inr split: sum.splits)
    from Cons.IH [of acc seen] obtain ms where
      "processAdvisory_loop sat a n pkgs acc seen =
          Inr (acc @ map (createBunAdvisory a) ms, seen \<union> pairKey a ` set ms)"
      "distinct (map (pairKey a) ms)" "pairKey a ` set ms \<inter> seen = {}"
      "set ms \<subseteq> set pkgs"
      "\<forall>p\<in>set ms. name p = n \<and> sat (version p) (vulnerable_versions a) = Inr True"
      by blast
    with skip show ?thesis
      by (intro exI [of _ ms]) auto
  next
    case True
    then have step: "processAdvisory_loop sat a n (pkg # pkgs) acc seen =
        processAdvisory_loop sat a n pkgs (acc @ [createBunAdvisory a pkg]) (insert ?k seen)"
      by (simp add: isVersionAffected_Inr)
    from Cons.IH [of "acc @ [createBunAdvisory a pkg]" "insert ?k seen"] obtain ms where ms:
      "processAdvisory_loop sat a n pkgs (acc @ [createBunAdvisory a pkg]) (insert ?k seen) =
          Inr ((acc @ [createBunAdvisory a pkg]) @ map (createBunAdvisory a) ms,
               insert ?k seen \<union> pairKey a ` set ms)"
      "distinct (map (pairKey a) ms)" "pairKey a ` set ms \<inter> insert ?k seen = {}"
      "set ms \<subseteq> set pkgs"
      "\<forall>p\<in>set ms. name p = n \<and> sat (version p) (vulnerable_versions a) = Inr True"
      by blast
    show ?thesis
    proof (intro exI [of _ "pkg # ms"] conjI)
      show "processAdvisory_loop sat a n (pkg # pkgs) acc seen =
        Inr (acc @ map (createBunAdvisory a) (pkg # ms), seen \<union> pairKey a ` set (pkg # ms))"
        using step ms(1) by simp
      show "distinct (map (pairKey a) (pkg # ms))" using ms(2,3) by auto
      show "pairKey a ` set (pkg # ms) \<inter> seen = {}" using ms(3) True by auto
      show "set (pkg # ms) \<subseteq> set (pkg # pkgs)" using ms(4) by auto
      show "\<forall>p\<in>set (pkg # ms). name p = n \<and> sat (version p) (vulnerable_versions a) = Inr True"
        using ms(5) True by auto
    qed
  qed
qed

lemma processAdvisory_spec:
  "\<exists>ms. processAdvisory sat a pkgs seen =
          Inr (map (createBunAdvisory a) ms, seen \<union> pairKey a ` set ms) \<and>
        distinct (map (pairKey a) ms) \<and> pairKey a ` set ms \<inter> seen = {} \<and>
        set ms \<subseteq> set pkgs \<and> (\<forall>p\<in>set ms. matched_by sat a p)"
proof (cases "advisoryPackageName a")
  case None
  then show ?thesis
    by (intro exI [of _ "[]"]) (simp add: processAdvisory_def)
next
  case (Some n)
  from processAdvisory_loop_spec [of sat a n pkgs "[]" seen] obtain ms where
    "processAdvisory_loop sat a n pkgs [] seen =
        Inr ([] @ map (createBunAdvisory a) ms, seen \<union> pairKey a ` set ms)"
    "distinct (map (pairKey a) ms)" "pairKey a ` set ms \<inter> seen = {}" "set ms \<subseteq> set pkgs"
    "\<forall>p\<in>set ms. name p = n \<and> sat (version p) (vulnerable_versions a) = Inr True"
    by blast
  with Some show ?thesis
    by (intro exI [of _ ms]) (simp add: processAdvisory_def matched_by_def)
qed

lemma processAdvisories_loop_spec:
  "\<exists>ms. processAdvisories_loop sat advs pkgs acc seen = Inr (acc @ map record_of ms) \<and>
        distinct (map key_of ms) \<and> key_of ` set ms \<inter> seen = {} \<and>
        set ms \<subseteq> set advs \<times> set pkgs \<and> (\<forall>m\<in>set ms. matched_by sat (fst m) (snd m))"
proof (induction advs arbitrary: acc seen)
  case Nil
  show ?case by (rule exI [of _ "[]"]) simp
next
  case (Cons a advs)
  from processAdvisory_spec [of sat a pkgs seen] obtain ps where ps:
    "processAdvisory sat a pkgs seen =
        Inr (map (createBunAdvisory a) ps, seen \<union> pairKey a ` set ps)"
    "distinct (map (pairKey a) ps)" "pairKey a ` set ps \<inter> seen = {}" "set ps \<subseteq> set pkgs"
    "\<forall>p\<in>set ps. matched_by sat a p"
    by blast
  let ?acc = "acc @ map (createBunAdvisory a) ps"
  let ?seen = "seen \<union> pairKey a ` set ps"
  from Cons.IH [of ?acc ?seen] obtain ms where ms:
    "processAdvisories_loop sat advs pkgs ?acc ?seen = Inr (?acc @ map record_of ms)"
    "distinct (map key_of ms)" "key_of ` set ms \<inter> ?seen = {}"
    "set ms \<subseteq> set advs \<times> set pkgs" "\<forall>m\<in>set ms. matched_by sat (fst m) (snd m)"
    by blast
  let ?ms = "map (Pair a) ps @ ms"
  have keys: "map key_of (map (Pair a) ps) = map (pairKey a) ps"
    by (simp add: key_of_def)
  have recs: "map record_of (map (Pair a) ps) = map (createBunAdvisory a) ps"
    by (simp add: record_of_def)
  show ?case
  proof (intro exI [of _ ?ms] conjI)
    show "processAdvisories_loop sat (a # advs) pkgs acc seen = Inr (acc @ map record_of ?ms)"
      using ps(1) ms(1) recs by simp
    have "set (map key_of (map (Pair a) ps)) \<inter> set (map key_of ms) = {}"
      unfolding keys using ms(3) by auto
    then show "distinct (map key_of ?ms)"
      using ps(2) ms(2) keys by (simp del: map_map)
    have "key_of ` set ?ms = pairKey a ` set ps \<union> key_of ` set ms"
      using keys by (metis image_Un image_set map_append set_append set_map)
    then show "key_of ` set ?ms \<inter> seen = {}"
      using ps(3) ms(3) by auto
    show "set ?ms \<subseteq> set (a # advs) \<times> set pkgs"
      using ps(4) ms(4) by auto
    show "\<forall>m\<in>set ?ms. matched_by sat (fst m) (snd m)"
      using ps(5) ms(5) by auto
  qed
qed

lemma key_of_triple: "key_of m = (\<lambda>(i, n, v). i @ '':'' @ n @ ''@'' @ v) (triple_of m)"
  by (simp add: key_of_def triple_of_def pairKey_def)

lemma distinct_triples: "distinct (map key_of ms) \<Longrightarrow> distinct (map triple_of ms)"
proof -
  assume d: "distinct (map key_of ms)"
  have "map key_of ms = map (\<lambda>(i, n, v). i @ '':'' @ n @ ''@'' @ v) (map triple_of ms)"
    by (simp add: key_of_triple)
  with d show ?thesis by (metis distinct_map)
qed

lemma processAdvisories_spec:
  "\<exists>ms. processAdvisories sat advs pkgs = Inr (map record_of ms) \<and>
        distinct (map triple_of ms) \<and>
        set ms \<subseteq> set advs \<times> set pkgs \<and> (\<forall>m\<in>set ms. matched_by sat (fst m) (snd m))"
proof (cases "advs = [] \<or> pkgs = []")
  case True
  then show ?thesis
    by (intro exI [of _ "[]"]) (simp add: processAdvisories_def)
next
  case False
  from processAdvisories_loop_spec [of sat advs pkgs "[]" "{}"] obtain ms where
    "processAdvisories_loop sat advs pkgs [] {} = Inr ([] @ map record_of ms)"
    "distinct (map key_of ms)" "set ms \<subseteq> set advs \<times> set pkgs"
    "\<forall>m\<in>set ms. matched_by sat (fst m) (snd m)"
    by blast
  with False show ?thesis
    by (intro exI [of _ ms]) (simp add: processAdvisories_def distinct_triples)
qed

section \<open>Version matcher\<close>




section \<open>Records per advisory and package\<close>

lemma matched_lodash_19: "matched_by Bun_semver_satisfies lodash_advisory lodash_4_17_19"
  unfolding matched_by_def by code_simp

lemma matched_lodash_20: "matched_by Bun_semver_satisfies lodash_advisory lodash_4_17_20"
  unfolding matched_by_def by code_simp

lemma pairKey_same:
  "name q = name p \<Longrightarrow> version q = version p \<Longrightarrow> pairKey a q = pairKey a p"
  by (simp add: pairKey_def)

lemma pairKey_versions:
  "name q = name p \<Longrightarrow> version q \<noteq> version p \<Longrightarrow> pairKey a q \<noteq> pairKey a p"
  by (simp add: pairKey_def)

lemma processAdvisories_same_version:
  assumes "matched_by sat a p" "name q = name p" "version q = version p"
  shows "processAdvisories sat [a] [p, q] = Inr [createBunAdvisory a p]"
  using assms pairKey_same [of q p a]
  by (simp add: processAdvisories_def processAdvisory_def matched_by_def isVersionAffected_Inr)

lemma processAdvisories_two_versions:
  assumes "matched_by sat a p" "matched_by sat a q" "version q \<noteq> version p"
  shows "processAdvisories sat [a] [p, q] = Inr [createBunAdvisory a p, createBunAdvisory a q]"
proof -
  from assms have n: "name q = name p" by (simp add: matched_by_def)
  with assms pairKey_versions [of q p a] show ?thesis
    by (simp add: processAdvisories_def processAdvisory_def matched_by_def isVersionAffected_Inr)
qed

lemma length_le_card_triples:
  assumes "distinct (map triple_of ms)" "set ms \<subseteq> S" "finite S"
  shows "length ms \<le> card (triple_of ` S)"
proof -
  have "length ms = card (set (map triple_of ms))"
    using assms(1) by (metis distinct_card length_map)
  also have "\<dots> \<le> card (triple_of ` S)"
    using assms(2,3) by (auto intro!: card_mono)
  finally show ?thesis .
qed

text \<open>
  Claim C4. One run of \<open>processAdvisories\<close> returns the records of a list of matches whose
  triples (advisory identifier, package name, package version) are pairwise distinct, so
  there are at most as many records as distinct triples. For one advisory and two entries
  of one affected package at the same version exactly one record is produced; for two
  affected entries with distinct versions two records are produced.
\<close>

theorem processAdvisories_at_most_once:
  "(\<exists>ms. processAdvisories satisfies advisories packages = Inr (map record_of ms) \<and>
         distinct (map triple_of ms) \<and>
         set ms \<subseteq> set advisories \<times> set packages \<and>
         (\<forall>m\<in>set ms. matched_by satisfies (fst m) (snd m)) \<and>
         length ms \<le> card (triple_of ` (set advisories \<times> set packages))) \<and>
   (matched_by satisfies a p \<and> name q = name p \<and> version q = version p \<longrightarrow>
      processAdvisories satisfies [a] [p, q] = Inr [createBunAdvisory a p]) \<and>
   (matched_by satisfies a p \<and> matched_by satisfies a q \<and> version q \<noteq> version p \<longrightarrow>
      processAdvisories satisfies [a] [p, q] = Inr [createBunAdvisory a p, createBunAdvisory a q])"
proof (intro conjI impI)
  from processAdvisories_spec [of satisfies advisories packages] obtain ms where ms:
    "processAdvisories satisfies advisories packages = Inr (map record_of ms)"
    "distinct (map triple_of ms)" "set ms \<subseteq> set advisories \<times> set packages"
    "\<forall>m\<in>set ms. matched_by satisfies (fst m) (snd m)"
    by blast
  have "length ms \<le> card (triple_of ` (set advisories \<times> set packages))"
    using ms(2,3) by (intro length_le_card_triples) auto
  with ms show "\<exists>ms. processAdvisories satisfies advisories packages = Inr (map record_of ms) \<and>
         distinct (map triple_of ms) \<and>
         set ms \<subseteq> set advisories \<times> set packages \<and>
         (\<forall>m\<in>set ms. matched_by satisfies (fst m) (snd m)) \<and>
         length ms \<le> card (triple_of ` (set advisories \<times> set packages))"
    by blast
next
  assume "matched_by satisfies a p \<and> name q = name p \<and> version q = version p"
  then show "processAdvisories satisfies [a] [p, q] = Inr [createBunAdvisory a p]"
    by (intro processAdvisories_same_version) simp_all
next
  assume "matched_by satisfies a p \<and> matched_by satisfies a q \<and> version q \<noteq> version p"
  then show "processAdvisories satisfies [a] [p, q] = Inr [createBunAdvisory a p, createBunAdvisory a q]"
    by (intro processAdvisories_two_versions) simp_all
qed

theorem processAdvisories_at_most_once_witness:
  "processAdvisories Bun_semver_satisfies [lodash_advisory] [lodash_4_17_20, lodash_4_17_20_again] =
     Inr [createBunAdvisory lodash_advisory lodash_4_17_20] \<and>
   processAdvisories Bun_semver_satisfies [lodash_advisory] [lodash_4_17_19, lodash_4_17_20] =
     Inr [createBunAdvisory lodash_advisory lodash_4_17_19,
          createBunAdvisory lodash_advisory lodash_4_17_20]"
proof -
  have same: "name lodash_4_17_20_again = name lodash_4_17_20"
    "version lodash_4_17_20_again = version lodash_4_17_20"
    by (simp_all add: lodash_4_17_20_def lodash_4_17_20_again_def)
  have differ: "version lodash_4_17_20 \<noteq> version lodash_4_17_19"
    by (simp add: lodash_4_17_20_def lodash_4_17_19_def)
  show ?thesis
    using processAdvisories_at_most_once
        [of Bun_semver_satisfies "[]" "[]" lodash_advisory lodash_4_17_20 lodash_4_17_20_again]
      processAdvisories_at_most_once
        [of Bun_semver_satisfies "[]" "[]" lodash_advisory lodash_4_17_19 lodash_4_17_20]
      same differ matched_lodash_19 matched_lodash_20
    by simp
qed

section \<open>Version ranges\<close>

lemma parse_range_star: "parse_range ''*'' = Some [[Any]]"
  by code_simp

lemma satisfies_star:
  "parse_version v = Some ver \<Longrightarrow> Bun_semver_satisfies v ''*'' = Inr (prerelease ver = [])"
  by (simp add: Bun_semver_satisfies_def parse_range_star clause_satisfied_def)

text \<open>
  Claim C5, as amended. With the runtime's matcher as the spec describes it,
  \<open>isAffected("4.17.19", "<4.17.20")\<close> is true, \<open>isAffected("4.17.21", "<4.17.20")\<close> is
  false, \<open>isAffected("3.3.6", "=3.3.6")\<close> is true, and for every valid version \<open>v\<close>,
  \<open>isAffected(v, "*")\<close> is true exactly when \<open>v\<close> has no pre-release component.
\<close>

theorem isVersionAffected_semver_cases:
  "isVersionAffected Bun_semver_satisfies ''4.17.19'' ''<4.17.20'' = Inr True \<and>
   isVersionAffected Bun_semver_satisfies ''4.17.21'' ''<4.17.20'' = Inr False \<and>
   isVersionAffected Bun_semver_satisfies ''3.3.6'' ''=3.3.6'' = Inr True \<and>
   (\<forall>v ver. parse_version v = Some ver \<longrightarrow>
      isVersionAffected Bun_semver_satisfies v ''*'' = Inr (prerelease ver = []))"
proof (intro conjI allI impI)
  show "isVersionAffected Bun_semver_satisfies ''4.17.19'' ''<4.17.20'' = Inr True"
    by code_simp
  show "isVersionAffected Bun_semver_satisfies ''4.17.21'' ''<4.17.20'' = Inr False"
    by code_simp
  show "isVersionAffected Bun_semver_satisfies ''3.3.6'' ''=3.3.6'' = Inr True"
    by code_simp
next
  fix v ver
  assume "parse_version v = Some ver"
  then show "isVersionAffected Bun_semver_satisfies v ''*'' = Inr (prerelease ver = [])"
    by (simp add: isVersionAffected_Inr satisfies_star)
qed

lemma parse_version_1_0_0:
  "parse_version ''1.0.0'' = Some \<lparr>major = 1, minor = 0, patch = 0, prerelease = []\<rparr>"
  by code_simp

theorem isVersionAffected_semver_cases_witness:
  "parse_version ''1.0.0'' = Some \<lparr>major = 1, minor = 0, patch = 0, prerelease = []\<rparr> \<and>
   isVersionAffected Bun_semver_satisfies ''1.0.0'' ''*'' = Inr True"
  using isVersionAffected_semver_cases parse_version_1_0_0 by simp

text \<open>
  The valid pre-release version \<open>1.0.0-beta.1\<close> is not affected by the range \<open>*\<close>: the
  range names no pre-release.
\<close>

theorem isVersionAffected_star_prerelease:
  "parse_version ''1.0.0-beta.1'' =
     Some \<lparr>major = 1, minor = 0, patch = 0, prerelease = [Alphanumeric ''beta'', Numeric 1]\<rparr> \<and>
   isVersionAffected Bun_semver_satisfies ''1.0.0-beta.1'' ''*'' = Inr False"
  by code_simp

lemma length_hard_truncation:
  "MAX_DESCRIPTION_LENGTH < length s \<Longrightarrow>
   length (substring s 0 (MAX_DESCRIPTION_LENGTH - 3) @ ''...'') = MAX_DESCRIPTION_LENGTH"
  by (simp add: substring_def MAX_DESCRIPTION_LENGTH_def)

lemma getAdvisoryDescription_length:
  "getAdvisoryDescription advisory = Some d \<Longrightarrow> length d \<le> MAX_DESCRIPTION_LENGTH"
  unfolding getAdvisoryDescription_def Let_def
  by (auto simp: length_hard_truncation not_le simp del: length_append split: if_splits)

lemma getAdvisoryDescription_overview_truncated:
  assumes "overview advisory = Some ov" "MAX_DESCRIPTION_LENGTH < length (trim ov)"
    and "\<forall>fs. match_first_sentence (trim ov) = Some fs \<longrightarrow> MAX_DESCRIPTION_LENGTH < length fs"
  shows "getAdvisoryDescription advisory = Some (take 197 (trim ov) @ ''...'')"
proof -
  from assms(2) have ne: "trim ov \<noteq> []" by auto
  have "substring (trim ov) 0 (MAX_DESCRIPTION_LENGTH - 3) = take 197 (trim ov)"
    by (simp add: substring_def MAX_DESCRIPTION_LENGTH_def)
  with assms ne show ?thesis
    unfolding getAdvisoryDescription_def Let_def
    by (cases "match_first_sentence (trim ov)") (auto simp: not_le)
qed

lemma getAdvisoryDescription_recommendation_truncated:
  assumes "overview advisory = None \<or> trim (the (overview advisory)) = []"
    and "recommendation advisory = Some rc" "MAX_DESCRIPTION_LENGTH < length (trim rc)"
  shows "getAdvisoryDescription advisory = Some (take 197 (trim rc) @ ''...'')"
proof -
  from assms(3) have ne: "trim rc \<noteq> []" by auto
  have "substring (trim rc) 0 (MAX_DESCRIPTION_LENGTH - 3) = take 197 (trim rc)"
    by (simp add: substring_def MAX_DESCRIPTION_LENGTH_def)
  with assms ne show ?thesis
    unfolding getAdvisoryDescription_def Let_def
    by (auto simp: not_le)
qed

lemma description_record_of: "description (record_of m) = getAdvisoryDescription (fst m)"
  by (simp add: record_of_def createBunAdvisory_def)

section \<open>Descriptions\<close>

text \<open>
  Claim C10. The description of a record is the advisory's derived description, which is
  absent or at most 200 characters long, for a single record and for every record that
  \<open>processAdvisories\<close> returns. On the hard-truncation paths (a trimmed overview longer
  than 200 characters with no first sentence within 200, or such a recommendation when
  there is no usable overview) it is the first 197 characters followed by three dots, 200
  characters in all.
\<close>

theorem description_length_bounded:
  "MAX_DESCRIPTION_LENGTH = 200 \<and>
   description (createBunAdvisory advisory pkg) = getAdvisoryDescription advisory \<and>
   (\<forall>d. getAdvisoryDescription advisory = Some d \<longrightarrow> length d \<le> 200) \<and>
   (\<forall>records. processAdvisories satisfies advisories packages = Inr records \<longrightarrow>
      (\<forall>r\<in>set records. \<forall>d. description r = Some d \<longrightarrow> length d \<le> 200)) \<and>
   (\<forall>ov. overview advisory = Some ov \<and> 200 < length (trim ov) \<and>
      (\<forall>fs. match_first_sentence (trim ov) = Some fs \<longrightarrow> 200 < length fs) \<longrightarrow>
      getAdvisoryDescription advisory = Some (take 197 (trim ov) @ ''...'') \<and>
      length (take 197 (trim ov) @ ''...'') = 200) \<and>
   (\<forall>rc. (overview advisory = None \<or> trim (the (overview advisory)) = []) \<and>
      recommendation advisory = Some rc \<and> 200 < length (trim rc) \<longrightarrow>
      getAdvisoryDescription advisory = Some (take 197 (trim rc) @ ''...'') \<and>
      length (take 197 (trim rc) @ ''...'') = 200)"
proof (intro conjI allI impI ballI)
  show "MAX_DESCRIPTION_LENGTH = 200" by (simp add: MAX_DESCRIPTION_LENGTH_def)
  show "description (createBunAdvisory advisory pkg) = getAdvisoryDescription advisory"
    by (simp add: createBunAdvisory_def)
next
  fix d assume "getAdvisoryDescription advisory = Some d"
  then show "length d \<le> 200"
    using getAdvisoryDescription_length by (simp add: MAX_DESCRIPTION_LENGTH_def)
next
  fix records r d
  assume out: "processAdvisories satisfies advisories packages = Inr records"
    and r: "r \<in> set records" and d: "description r = Some d"
  from processAdvisories_spec [of satisfies advisories packages] out obtain ms
    where "records = map record_of ms" by auto
  with r obtain m where "r = record_of m" by auto
  with d have "getAdvisoryDescription (fst m) = Some d"
    by (simp add: description_record_of)
  then show "length d \<le> 200"
    using getAdvisoryDescription_length by (simp add: MAX_DESCRIPTION_LENGTH_def)
next
  fix ov
  assume h: "overview advisory = Some ov \<and> 200 < length (trim ov) \<and>
      (\<forall>fs. match_first_sentence (trim ov) = Some fs \<longrightarrow> 200 < length fs)"
  then show "getAdvisoryDescription advisory = Some (take 197 (trim ov) @ ''...'')"
    by (intro getAdvisoryDescription_overview_truncated) (simp_all add: MAX_DESCRIPTION_LENGTH_def)
  from h show "length (take 197 (trim ov) @ ''...'') = 200" by simp
next
  fix rc
  assume h: "(overview advisory = None \<or> trim (the (overview advisory)) = []) \<and>
      recommendation advisory = Some rc \<and> 200 < length (trim rc)"
  then show "getAdvisoryDescription advisory = Some (take 197 (trim rc) @ ''...'')"
    by (intro getAdvisoryDescription_recommendation_truncated) (simp_all add: MAX_DESCRIPTION_LENGTH_def)
  from h show "length (take 197 (trim rc) @ ''...'') = 200" by simp
qed

lemma match_first_sentence_replicate:
  "c \<notin> {CHR ''.'', CHR ''!'', CHR ''?''} \<Longrightarrow> match_first_sentence (replicate n c) = None"
  by (induction n) simp_all

lemma trim_replicate: "\<not> isWhiteSpace c \<Longrightarrow> trim (replicate n c) = replicate n c"
  by (simp add: trim_def dropWhile_replicate)

theorem description_length_bounded_witness:
  "getAdvisoryDescription long_overview_advisory = Some (replicate 197 CHR ''A'' @ ''...'') \<and>
   length (replicate 197 CHR ''A'' @ ''...'') = 200"
proof -
  have ov: "overview long_overview_advisory = Some (replicate 300 CHR ''A'')"
    by (simp add: long_overview_advisory_def)
  have tr: "trim (replicate 300 CHR ''A'') = replicate 300 CHR ''A''"
    by (rule trim_replicate) (simp add: isWhiteSpace_def)
  have ms: "match_first_sentence (replicate 300 CHR ''A'') = None"
    by (rule match_first_sentence_replicate) simp
  show ?thesis
    using description_length_bounded [of long_overview_advisory] ov tr ms by simp
qed

section \<open>De-duplication and the request payload\<close>

lemma dedup_loop_set_keys:
  "fst ` set (deduplicatePackages_loop pkgs m) = fst ` set m \<union> packageKey ` set pkgs"
proof (induction pkgs arbitrary: m)
  case Nil
  show ?case by simp
next
  case (Cons p pkgs)
  show ?case
  proof (cases "map_of m (packageKey p)")
    case None
    then show ?thesis by (simp add: Cons.IH)
  next
    case (Some q)
    then have "packageKey p \<in> fst ` set m"
      using map_of_eq_None_iff [of m "packageKey p"] by simp
    with Some show ?thesis by (simp add: Cons.IH insert_absorb)
  qed
qed

lemma dedup_loop_distinct:
  "distinct (map fst m) \<Longrightarrow> distinct (map fst (deduplicatePackages_loop pkgs m))"
proof (induction pkgs arbitrary: m)
  case Nil
  then show ?case by simp
next
  case (Cons p pkgs)
  show ?case
  proof (cases "map_of m (packageKey p)")
    case None
    then have "packageKey p \<notin> fst ` set m" by (simp add: map_of_eq_None_iff)
    with Cons.prems have "distinct (map fst (m @ [(packageKey p, p)]))" by simp
    from Cons.IH [OF this] None show ?thesis by simp
  next
    case (Some q)
    with Cons show ?thesis by simp
  qed
qed

lemma dedup_loop_entries:
  "(\<forall>e\<in>set m. fst e = packageKey (snd e) \<and> snd e \<in> S) \<Longrightarrow> set pkgs \<subseteq> S \<Longrightarrow>
   (\<forall>e\<in>set (deduplicatePackages_loop pkgs m). fst e = packageKey (snd e) \<and> snd e \<in> S)"
proof (induction pkgs arbitrary: m)
  case Nil
  then show ?case by simp
next
  case (Cons p pkgs)
  from Cons.prems have ext: "\<forall>e\<in>set (m @ [(packageKey p, p)]). fst e = packageKey (snd e) \<and> snd e \<in> S"
    by simp
  from Cons.prems have sub: "set pkgs \<subseteq> S" by simp
  show ?case
  proof (cases "map_of m (packageKey p)")
    case None
    with Cons.IH [OF ext sub] show ?thesis by simp
  next
    case (Some q)
    with Cons.IH [OF Cons.prems(1) sub] show ?thesis by simp
  qed
qed

lemma dedup_keys: "map packageKey (deduplicatePackages pkgs) = map fst (deduplicatePackages_loop pkgs [])"
proof -
  have "\<forall>e\<in>set (deduplicatePackages_loop pkgs []). fst e = packageKey (snd e) \<and> snd e \<in> set pkgs"
    by (rule dedup_loop_entries) simp_all
  then show ?thesis by (simp add: deduplicatePackages_def)
qed

lemma dedup_distinct_keys: "distinct (map packageKey (deduplicatePackages pkgs))"
  by (simp add: dedup_keys dedup_loop_distinct)

lemma dedup_set_keys: "packageKey ` set (deduplicatePackages pkgs) = packageKey ` set pkgs"
proof -
  have "set (map packageKey (deduplicatePackages pkgs)) = fst ` set (deduplicatePackages_loop pkgs [])"
    by (simp only: dedup_keys set_map)
  then show ?thesis by (simp add: dedup_loop_set_keys)
qed

lemma dedup_subset: "set (deduplicatePackages pkgs) \<subseteq> set pkgs"
proof -
  have "\<forall>e\<in>set (deduplicatePackages_loop pkgs []). fst e = packageKey (snd e) \<and> snd e \<in> set pkgs"
    by (rule dedup_loop_entries) simp_all
  then show ?thesis by (auto simp: deduplicatePackages_def)
qed

lemma dedup_length: "length (deduplicatePackages pkgs) = card (packageKey ` set pkgs)"
proof -
  have "length (deduplicatePackages pkgs) = length (map packageKey (deduplicatePackages pkgs))"
    by simp
  also have "\<dots> = card (set (map packageKey (deduplicatePackages pkgs)))"
    using dedup_distinct_keys by (simp only: distinct_card)
  also have "\<dots> = card (packageKey ` set pkgs)"
    by (simp add: dedup_set_keys)
  finally show ?thesis .
qed

lemma dedup_loop_fresh:
  "distinct (map packageKey pkgs) \<Longrightarrow> packageKey ` set pkgs \<inter> fst ` set m = {} \<Longrightarrow>
   deduplicatePackages_loop pkgs m = m @ map (\<lambda>p. (packageKey p, p)) pkgs"
proof (induction pkgs arbitrary: m)
  case Nil
  then show ?case by simp
next
  case (Cons p pkgs)
  from Cons.prems have none: "map_of m (packageKey p) = None"
    by (auto simp: map_of_eq_None_iff)
  from Cons.prems have "packageKey ` set pkgs \<inter> fst ` set (m @ [(packageKey p, p)]) = {}"
    by auto
  with Cons.IH [of "m @ [(packageKey p, p)]"] Cons.prems none show ?case by simp
qed

lemma dedup_distinct_id:
  "distinct (map packageKey pkgs) \<Longrightarrow> deduplicatePackages pkgs = pkgs"
  by (simp add: deduplicatePackages_def dedup_loop_fresh comp_def)

lemma takeWhile_separator:
  "\<forall>c\<in>set xs. P c \<Longrightarrow> \<not> P y \<Longrightarrow> takeWhile P (xs @ y # ys) = xs"
  by (induction xs) simp_all

lemma packageKey_inj:
  assumes "packageKey p = packageKey q" "CHR ''@'' \<notin> set (version p)" "CHR ''@'' \<notin> set (version q)"
  shows "name p = name q \<and> version p = version q"
proof -
  let ?P = "\<lambda>c. c \<noteq> CHR ''@''"
  have tw: "takeWhile ?P (rev (packageKey r)) = rev (version r)" if "CHR ''@'' \<notin> set (version r)" for r
  proof -
    have "rev (packageKey r) = rev (version r) @ CHR ''@'' # rev (name r)"
      by (simp add: packageKey_def)
    moreover have "\<forall>c\<in>set (rev (version r)). ?P c" using that by auto
    ultimately show ?thesis by (simp only: takeWhile_separator [of _ ?P] simp_thms)
  qed
  from assms tw [of p] tw [of q] have v: "version p = version q"
    by (metis rev_is_rev_conv)
  with assms(1) show ?thesis by (simp add: packageKey_def)
qed

lemma packageKey_name_version: "packageKey p = (\<lambda>(n, v). n @ ''@'' @ v) (name_version p)"
  by (simp add: packageKey_def name_version_def)

lemma dedup_distinct_pairs: "distinct (map name_version (deduplicatePackages pkgs))"
proof -
  let ?f = "\<lambda>(n, v). n @ ''@'' @ v"
  have "map packageKey (deduplicatePackages pkgs) = map ?f (map name_version (deduplicatePackages pkgs))"
    by (simp add: packageKey_name_version)
  with dedup_distinct_keys [of pkgs]
  have "distinct (map ?f (map name_version (deduplicatePackages pkgs)))" by simp
  then show ?thesis
    using distinct_map [of ?f "map name_version (deduplicatePackages pkgs)"] by simp
qed

lemma dedup_represents_pairs:
  assumes "\<forall>p\<in>set pkgs. CHR ''@'' \<notin> set (version p)"
  shows "name_version ` set (deduplicatePackages pkgs) = name_version ` set pkgs"
proof
  show "name_version ` set (deduplicatePackages pkgs) \<subseteq> name_version ` set pkgs"
    using dedup_subset [of pkgs] by blast
  show "name_version ` set pkgs \<subseteq> name_version ` set (deduplicatePackages pkgs)"
  proof
    fix x assume "x \<in> name_version ` set pkgs"
    then obtain p where p: "p \<in> set pkgs" "x = name_version p" by blast
    from p(1) have "packageKey p \<in> packageKey ` set pkgs" by simp
    then have "packageKey p \<in> packageKey ` set (deduplicatePackages pkgs)"
      by (simp only: dedup_set_keys)
    then obtain q where q: "q \<in> set (deduplicatePackages pkgs)" "packageKey q = packageKey p"
      by force
    with dedup_subset [of pkgs] have "q \<in> set pkgs" by blast
    with assms p(1) have "CHR ''@'' \<notin> set (version q)" "CHR ''@'' \<notin> set (version p)"
      by simp_all
    with q(2) have "name q = name p \<and> version q = version p" by (rule packageKey_inj)
    then have "name_version q = x" by (simp add: name_version_def p(2))
    with q(1) show "x \<in> name_version ` set (deduplicatePackages pkgs)" by blast
  qed
qed

lemma dedup_count_pairs:
  assumes "\<forall>p\<in>set pkgs. CHR ''@'' \<notin> set (version p)"
  shows "length (deduplicatePackages pkgs) = card (name_version ` set pkgs)"
proof -
  have "length (deduplicatePackages pkgs) = length (map name_version (deduplicatePackages pkgs))"
    by simp
  also have "\<dots> = card (set (map name_version (deduplicatePackages pkgs)))"
    using dedup_distinct_pairs [of pkgs] by (simp only: distinct_card)
  also have "\<dots> = card (name_version ` set pkgs)"
    by (simp only: set_map dedup_represents_pairs [OF assms])
  finally show ?thesis .
qed

lemma update_appended:
  "map_of al k = None \<Longrightarrow> AList.update k v (al @ [(k, w)]) = AList.update k v al"
  by (induction al) (auto split: if_splits)

lemma versions_update:
  "versions (AList.update k v al) n = (if n = k then v else versions al n)"
  by (simp add: versions_def update_conv')

lemma buildRequestPayload_loop_safe:
  assumes "safe_name pkg"
  shows "buildRequestPayload_loop (pkg # pkgs) payload =
           buildRequestPayload_loop pkgs (add_version payload pkg)"
proof (cases "map_of payload (name pkg)")
  case None
  with assms have u: "get_property payload (name pkg) = Undefined"
    by (simp add: get_property_def safe_name_def)
  have o: "get_property (payload @ [(name pkg, [])]) (name pkg) = Own []"
    using None by (simp add: get_property_def map_add_def)
  have a: "add_version payload pkg = AList.update (name pkg) [version pkg] payload"
    using None by (simp add: add_version_def versions_def)
  show ?thesis
    by (simp add: u o a update_appended [OF None])
next
  case (Some vs)
  then have o: "get_property payload (name pkg) = Own vs"
    by (simp add: get_property_def)
  from Some have v: "versions payload (name pkg) = vs" by (simp add: versions_def)
  show ?thesis
    by (simp add: o v add_version_def)
qed

lemma buildRequestPayload_loop_foldl:
  "\<forall>p\<in>set pkgs. safe_name p \<Longrightarrow>
   buildRequestPayload_loop pkgs payload = Inr (foldl add_version payload pkgs)"
  by (induction pkgs arbitrary: payload)
    (simp_all add: buildRequestPayload_loop_safe del: buildRequestPayload_loop.simps(2))

lemma keys_add_version:
  "fst ` set (add_version payload pkg) = insert (name pkg) (fst ` set payload) \<or>
   (fst ` set (add_version payload pkg) = fst ` set payload \<and> name pkg \<in> fst ` set payload)"
proof (cases "version pkg \<in> set (versions payload (name pkg))")
  case True
  then have "map_of payload (name pkg) \<noteq> None"
    by (cases "map_of payload (name pkg)") (simp_all add: versions_def)
  then have "name pkg \<in> fst ` set payload" by (simp add: map_of_eq_None_iff)
  with True show ?thesis by (simp add: add_version_def)
next
  case False
  then show ?thesis by (simp add: add_version_def dom_update)
qed

lemma buildRequestPayload_loop_unsafe:
  "\<exists>p\<in>set pkgs. \<not> safe_name p \<Longrightarrow> \<forall>k\<in>fst ` set payload. k \<notin> set Object_prototype \<Longrightarrow>
   buildRequestPayload_loop pkgs payload = Inl (TypeError ''versions.includes is not a function'')"
proof (induction pkgs arbitrary: payload)
  case Nil
  then show ?case by simp
next
  case (Cons pkg pkgs)
  show ?case
  proof (cases "safe_name pkg")
    case True
    with Cons.prems(1) have rest: "\<exists>p\<in>set pkgs. \<not> safe_name p" by simp
    from True have n: "name pkg \<notin> set Object_prototype" by (simp add: safe_name_def)
    have "\<forall>k\<in>fst ` set (add_version payload pkg). k \<notin> set Object_prototype"
    proof
      fix k assume "k \<in> fst ` set (add_version payload pkg)"
      with keys_add_version [of payload pkg] have "k = name pkg \<or> k \<in> fst ` set payload"
        by blast
      with n Cons.prems(2) show "k \<notin> set Object_prototype" by blast
    qed
    from Cons.IH [OF rest this] show ?thesis
      by (simp only: buildRequestPayload_loop_safe [OF True])
  next
    case False
    then have m: "name pkg \<in> set Object_prototype" by (simp add: safe_name_def)
    with Cons.prems(2) have "name pkg \<notin> fst ` set payload" by blast
    then have "map_of payload (name pkg) = None" by (simp add: map_of_eq_None_iff)
    with m have inh: "get_property payload (name pkg) = Inherited"
      by (simp add: get_property_def)
    show ?thesis by (simp add: inh)
  qed
qed

lemma buildRequestPayload_safe:
  "\<forall>p\<in>set pkgs. safe_name p \<Longrightarrow> buildRequestPayload pkgs = Inr (foldl add_version [] pkgs)"
  by (simp add: buildRequestPayload_def buildRequestPayload_loop_foldl)

lemma buildRequestPayload_unsafe:
  "\<exists>p\<in>set pkgs. \<not> safe_name p \<Longrightarrow>
   buildRequestPayload pkgs = Inl (TypeError ''versions.includes is not a function'')"
  by (simp add: buildRequestPayload_def buildRequestPayload_loop_unsafe)

lemma buildRequestPayload_Inr_iff:
  "(\<exists>payload. buildRequestPayload pkgs = Inr payload) = (\<forall>p\<in>set pkgs. safe_name p)"
proof (cases "\<forall>p\<in>set pkgs. safe_name p")
  case True
  then show ?thesis by (simp add: buildRequestPayload_safe)
next
  case False
  then have "\<exists>p\<in>set pkgs. \<not> safe_name p" by simp
  from buildRequestPayload_unsafe [OF this] False show ?thesis by simp
qed

lemma versions_add_version:
  "versions (add_version payload pkg) n =
     (if n = name pkg \<and> version pkg \<notin> set (versions payload n)
      then versions payload n @ [version pkg] else versions payload n)"
  by (simp add: add_version_def versions_update)

lemma versions_add_set:
  "set (versions (add_version payload pkg) n) =
     set (versions payload n) \<union> (if name pkg = n then {version pkg} else {})"
  by (auto simp: versions_add_version)

lemma versions_foldl_set:
  "set (versions (foldl add_version payload pkgs) n) =
     set (versions payload n) \<union> version ` {p \<in> set pkgs. name p = n}"
proof (induction pkgs arbitrary: payload)
  case Nil
  show ?case by simp
next
  case (Cons q pkgs)
  have "{p \<in> set (q # pkgs). name p = n} =
      (if name q = n then {q} else {}) \<union> {p \<in> set pkgs. name p = n}"
    by auto
  then show ?case
    by (simp add: Cons.IH versions_add_set Un_assoc image_Un)
qed

lemma versions_add_distinct:
  "distinct (versions payload n) \<Longrightarrow> distinct (versions (add_version payload pkg) n)"
  by (cases "n = name pkg") (simp_all add: versions_add_version)

lemma versions_foldl_distinct:
  "distinct (versions payload n) \<Longrightarrow> distinct (versions (foldl add_version payload pkgs) n)"
  by (induction pkgs arbitrary: payload) (simp_all add: versions_add_distinct)

lemma keys_foldl:
  "fst ` set (foldl add_version payload pkgs) = fst ` set payload \<union> name ` set pkgs"
proof (induction pkgs arbitrary: payload)
  case Nil
  show ?case by simp
next
  case (Cons p pkgs)
  from keys_add_version [of payload p] show ?case
    by (simp add: Cons.IH) blast
qed

lemma distinct_add_version:
  "distinct (map fst payload) \<Longrightarrow> distinct (map fst (add_version payload pkg))"
  by (simp add: add_version_def distinct_update)

lemma distinct_foldl:
  "distinct (map fst payload) \<Longrightarrow> distinct (map fst (foldl add_version payload pkgs))"
  by (induction pkgs arbitrary: payload) (simp_all add: distinct_add_version)

lemma payload_entries:
  assumes "distinct (map fst payload)"
  shows "((n, vs) \<in> set payload) = (map_of payload n = Some vs)"
  using assms by (simp add: map_of_eq_Some_iff)

section \<open>The batch loop\<close>

lemma batches_Nil [simp]: "batches k [] = []"
  by (simp add: batches.simps)

lemma batches_Cons: "0 < k \<Longrightarrow> xs \<noteq> [] \<Longrightarrow> batches k xs = take k xs # batches k (drop k xs)"
  by (subst batches.simps) simp

lemma batches_concat: "0 < k \<Longrightarrow> concat (batches k xs) = xs"
proof (induction k xs rule: batches.induct)
  case (1 k xs)
  show ?case
  proof (cases "xs = []")
    case True
    then show ?thesis by simp
  next
    case False
    with 1 show ?thesis by (simp add: batches_Cons)
  qed
qed

lemma ceiling_step:
  assumes "0 < (k::nat)" "0 < n"
  shows "(n + k - 1) div k = Suc ((n - k + k - 1) div k)"
proof -
  from assms have a: "n + k - 1 = (n - 1) + k" by simp
  have "((n - 1) + k) div k = (n - 1) div k + 1"
    using assms(1) by (intro div_add_self2) simp
  then have l: "(n + k - 1) div k = Suc ((n - 1) div k)"
    by (simp only: a Suc_eq_plus1)
  have r: "(n - k + k - 1) div k = (n - 1) div k"
  proof (cases "n \<le> k")
    case True
    with assms show ?thesis by simp
  next
    case False
    then have "n - k + k - 1 = n - 1" by simp
    then show ?thesis by simp
  qed
  show ?thesis by (simp only: l r)
qed

lemma batches_length: "0 < k \<Longrightarrow> length (batches k xs) = (length xs + k - 1) div k"
proof (induction k xs rule: batches.induct)
  case (1 k xs)
  show ?case
  proof (cases "xs = []")
    case True
    with 1 show ?thesis by simp
  next
    case False
    with 1 have "length (batches k xs) = Suc ((length xs - k + k - 1) div k)"
      by (simp add: batches_Cons)
    also have "\<dots> = (length xs + k - 1) div k"
      using ceiling_step [of k "length xs"] 1 False by simp
    finally show ?thesis .
  qed
qed

lemma batches_subset: "b \<in> set (batches k xs) \<Longrightarrow> set b \<subseteq> set xs"
proof (induction k xs rule: batches.induct)
  case (1 k xs)
  show ?case
  proof (cases "k = 0 \<or> xs = []")
    case True
    with 1 show ?thesis by (simp add: batches.simps)
  next
    case False
    with 1(2) have "b = take k xs \<or> b \<in> set (batches k (drop k xs))"
      by (simp add: batches_Cons)
    then show ?thesis
    proof
      assume "b = take k xs"
      then show ?thesis by (simp add: set_take_subset)
    next
      assume "b \<in> set (batches k (drop k xs))"
      with 1(1) False have "set b \<subseteq> set (drop k xs)" by simp
      then show ?thesis using set_drop_subset by fastforce
    qed
  qed
qed

lemma batches_nonempty: "b \<in> set (batches k xs) \<Longrightarrow> b \<noteq> []"
proof (induction k xs rule: batches.induct)
  case (1 k xs)
  show ?case
  proof (cases "k = 0 \<or> xs = []")
    case True
    with 1 show ?thesis by (simp add: batches.simps)
  next
    case False
    with 1(2) have "b = take k xs \<or> b \<in> set (batches k (drop k xs))"
      by (simp add: batches_Cons)
    with 1(1) False show ?thesis by auto
  qed
qed

lemma slice_step: "slice xs i (i + k) = take k (drop i xs)"
  by (simp add: slice_def)

lemma the_payload_safe:
  "\<forall>p\<in>set b. safe_name p \<Longrightarrow> buildRequestPayload b = Inr (the_payload b)"
  by (simp add: the_payload_def buildRequestPayload_safe)

lemma queryInBatches_loop_closed:
  assumes k: "0 < k" and safe: "\<forall>p\<in>set pkgs. safe_name p"
  shows "queryInBatches_loop k d pkgs i sent advs =
           Some (sent @ map the_payload (batches k (drop i pkgs)),
                 Inr (advs @ concat (map (batch_result d) (batches k (drop i pkgs)))))"
proof (induction "length pkgs - i" arbitrary: i sent advs rule: less_induct)
  case less
  show ?case
  proof (cases "i < length pkgs")
    case False
    then show ?thesis
      by (subst queryInBatches_loop.simps) simp
  next
    case True
    let ?b = "take k (drop i pkgs)"
    have "set ?b \<subseteq> set pkgs"
      using set_take_subset set_drop_subset by fastforce
    with safe have "\<forall>p\<in>set ?b. safe_name p" by blast
    then have p: "buildRequestPayload ?b = Inr (the_payload ?b)" by (rule the_payload_safe)
    from True have ne: "drop i pkgs \<noteq> []" by simp
    have bs: "batches k (drop i pkgs) = ?b # batches k (drop (i + k) pkgs)"
      using batches_Cons [OF k ne] by (simp add: add.commute)
    from True k have dec: "length pkgs - (i + k) < length pkgs - i" by simp
    note IH = less [OF dec]
    show ?thesis
    proof (cases "executeBulkQuery d (the_payload ?b)")
      case (Inl e)
      then have r: "batch_result d ?b = []" by (simp add: batch_result_def)
      show ?thesis
        by (subst queryInBatches_loop.simps) (simp add: True slice_step p Inl IH bs r)
    next
      case (Inr batchAdvisories)
      then have r: "batch_result d ?b = batchAdvisories" by (simp add: batch_result_def)
      show ?thesis
        by (subst queryInBatches_loop.simps) (simp add: True slice_step p Inr IH bs r)
    qed
  qed
qed

lemma queryInBatches_closed:
  assumes "0 < k" "\<forall>p\<in>set pkgs. safe_name p"
  shows "queryInBatches k d pkgs =
           Some (map the_payload (batches k pkgs), Inr (concat (map (batch_result d) (batches k pkgs))))"
  using queryInBatches_loop_closed [OF assms, of d 0 "[]" "[]"]
  by (simp add: queryInBatches_def)

section \<open>Response validation\<close>

lemma parse_standard:
  "parse NpmAuditResponseSchema response_standard = Inr [(''1065'', prototype_pollution)]"
  by code_simp

lemma parse_alternative:
  "parse NpmAuditResponseSchema response_alternative = Inl ZodError \<and>
   parse NpmAuditResponseAltSchema response_alternative =
     Inr \<lparr>alt_advisories = [(''1065'', prototype_pollution)], alt_metadata = Some (JObject [])\<rparr>"
  by code_simp

lemma parse_invalid:
  "parse NpmAuditResponseSchema response_invalid = Inl ZodError \<and>
   parse NpmAuditResponseAltSchema response_invalid = Inl ZodError"
  by code_simp

lemma executeBulkQuery_standard:
  assumes "deliver payload = Inr data" "parse NpmAuditResponseSchema data = Inr m"
  shows "executeBulkQuery deliver payload = Inr (map snd m)"
  by (simp add: executeBulkQuery_def try_catch_def assms)

lemma executeBulkQuery_alternative:
  assumes "deliver payload = Inr data" "parse NpmAuditResponseSchema data = Inl e"
    "parse NpmAuditResponseAltSchema data = Inr alt"
  shows "executeBulkQuery deliver payload = Inr (map snd (alt_advisories alt))"
  by (simp add: executeBulkQuery_def try_catch_def assms)

lemma executeBulkQuery_neither:
  assumes "deliver payload = Inr data" "parse NpmAuditResponseSchema data = Inl e"
    "parse NpmAuditResponseAltSchema data = Inl e'"
  shows "executeBulkQuery deliver payload = Inl e'"
  by (simp add: executeBulkQuery_def try_catch_def assms)

lemma queryVulnerabilities_single:
  assumes "packages \<noteq> []" "buildRequestPayload (deduplicatePackages packages) = Inr payload"
    "length (deduplicatePackages packages) \<le> k"
  shows "queryVulnerabilities k deliver packages = Some ([payload], executeBulkQuery deliver payload)"
  using assms by (simp add: queryVulnerabilities_def)

text \<open>
  Claim C9. \<open>executeBulkQuery\<close> validates the decoded response against the standard format
  first and returns its advisories when that fits; when it does not, the alternative
  format is tried and its \<open>advisories\<close> are returned; when neither fits, the error of the
  second validation is thrown to the caller, and a query that is not batched throws it on
  to its own caller instead of returning an empty result.
\<close>

theorem executeBulkQuery_validation_order:
  "(\<forall>m. deliver payload = Inr data \<and> parse NpmAuditResponseSchema data = Inr m \<longrightarrow>
      executeBulkQuery deliver payload = Inr (map snd m)) \<and>
   (\<forall>e alt. deliver payload = Inr data \<and> parse NpmAuditResponseSchema data = Inl e \<and>
      parse NpmAuditResponseAltSchema data = Inr alt \<longrightarrow>
      executeBulkQuery deliver payload = Inr (map snd (alt_advisories alt))) \<and>
   (\<forall>e e'. deliver payload = Inr data \<and> parse NpmAuditResponseSchema data = Inl e \<and>
      parse NpmAuditResponseAltSchema data = Inl e' \<longrightarrow>
      executeBulkQuery deliver payload = Inl e' \<and>
      (packages \<noteq> [] \<and> buildRequestPayload (deduplicatePackages packages) = Inr payload \<and>
       length (deduplicatePackages packages) \<le> k \<longrightarrow>
       queryVulnerabilities k deliver packages = Some ([payload], Inl e')))"
proof (intro conjI allI impI)
  fix m
  assume "deliver payload = Inr data \<and> parse NpmAuditResponseSchema data = Inr m"
  then show "executeBulkQuery deliver payload = Inr (map snd m)"
    using executeBulkQuery_standard [of deliver payload data m] by simp
next
  fix e alt
  assume "deliver payload = Inr data \<and> parse NpmAuditResponseSchema data = Inl e \<and>
      parse NpmAuditResponseAltSchema data = Inr alt"
  then show "executeBulkQuery deliver payload = Inr (map snd (alt_advisories alt))"
    using executeBulkQuery_alternative [of deliver payload data e alt] by simp
next
  fix e e'
  assume h: "deliver payload = Inr data \<and> parse NpmAuditResponseSchema data = Inl e \<and>
      parse NpmAuditResponseAltSchema data = Inl e'"
  then show r: "executeBulkQuery deliver payload = Inl e'"
    using executeBulkQuery_neither [of deliver payload data e e'] by simp
  assume "packages \<noteq> [] \<and> buildRequestPayload (deduplicatePackages packages) = Inr payload \<and>
       length (deduplicatePackages packages) \<le> k"
  then show "queryVulnerabilities k deliver packages = Some ([payload], Inl e')"
    using queryVulnerabilities_single [of packages payload k deliver] r by simp
qed

lemma lodash_payload:
  "deduplicatePackages [lodash_4_17_20] = [lodash_4_17_20] \<and>
   buildRequestPayload [lodash_4_17_20] = Inr [(''lodash'', [''4.17.20''])]"
  by code_simp

theorem executeBulkQuery_validation_order_witness:
  "executeBulkQuery (\<lambda>payload. Inr response_standard) [(''lodash'', [''4.17.20''])] =
     Inr [prototype_pollution] \<and>
   executeBulkQuery (\<lambda>payload. Inr response_alternative) [(''lodash'', [''4.17.20''])] =
     Inr [prototype_pollution] \<and>
   executeBulkQuery (\<lambda>payload. Inr response_invalid) [(''lodash'', [''4.17.20''])] = Inl ZodError \<and>
   queryVulnerabilities MAX_PACKAGES_PER_REQUEST (\<lambda>payload. Inr response_invalid) [lodash_4_17_20] =
     Some ([[(''lodash'', [''4.17.20''])]], Inl ZodError)"
proof -
  have k: "length [lodash_4_17_20] \<le> MAX_PACKAGES_PER_REQUEST"
    by (simp add: MAX_PACKAGES_PER_REQUEST_def)
  show ?thesis
    using
      executeBulkQuery_validation_order
        [of "\<lambda>payload. Inr response_standard" "[(''lodash'', [''4.17.20''])]" response_standard]
      executeBulkQuery_validation_order
        [of "\<lambda>payload. Inr response_alternative" "[(''lodash'', [''4.17.20''])]" response_alternative]
      executeBulkQuery_validation_order
        [of "\<lambda>payload. Inr response_invalid" "[(''lodash'', [''4.17.20''])]" response_invalid
          "[lodash_4_17_20]" MAX_PACKAGES_PER_REQUEST]
      parse_standard parse_alternative parse_invalid lodash_payload k
    by simp
qed

text \<open>
  Claim C6, at an input where the code fails. For a package named \<open>constructor\<close> the
  payload is not built: \<open>buildRequestPayload\<close> throws a \<open>TypeError\<close>,
  \<open>queryVulnerabilities\<close> throws it on without sending a request, and the scan returns no
  advisory, also for the vulnerable \<open>lodash\<close> in the same list, which the scan reports when
  it is alone.
\<close>

theorem buildRequestPayload_inherited_name:
  "buildRequestPayload [constructor_1_0_0] = Inl (TypeError ''versions.includes is not a function'') \<and>
   queryVulnerabilities MAX_PACKAGES_PER_REQUEST lodash_registry [lodash_4_17_20, constructor_1_0_0] =
     Some ([], Inl (TypeError ''versions.includes is not a function'')) \<and>
   scanner_scan lodash_registry Bun_semver_satisfies [lodash_4_17_20, constructor_1_0_0] =
     Some ([], Inr []) \<and>
   scanner_scan lodash_registry Bun_semver_satisfies [lodash_4_17_20] =
     Some ([[(''lodash'', [''4.17.20''])]], Inr [createBunAdvisory prototype_pollution lodash_4_17_20])"
  by code_simp

section \<open>The scan and failed batches\<close>

lemma queryVulnerabilities_batched:
  assumes "0 < k" "k < length (deduplicatePackages packages)"
    "buildRequestPayload (deduplicatePackages packages) = Inr requestPayload"
  shows "queryVulnerabilities k deliver packages =
           Some (map the_payload (batches k (deduplicatePackages packages)),
                 Inr (concat (map (batch_result deliver) (batches k (deduplicatePackages packages)))))"
proof -
  from assms(2) have ne: "packages \<noteq> []"
    by (auto simp: deduplicatePackages_def)
  from assms(3) have safe: "\<forall>p\<in>set (deduplicatePackages packages). safe_name p"
    using buildRequestPayload_Inr_iff [of "deduplicatePackages packages"] by blast
  show ?thesis
    by (simp add: queryVulnerabilities_def Let_def ne assms queryInBatches_closed [OF assms(1) safe])
qed

lemma queryVulnerabilities_returns:
  assumes "0 < k"
  shows "\<exists>sent r. queryVulnerabilities k deliver packages = Some (sent, r)"
proof (cases "packages = []")
  case True
  then show ?thesis by (simp add: queryVulnerabilities_def)
next
  case False
  show ?thesis
  proof (cases "buildRequestPayload (deduplicatePackages packages)")
    case (Inl e)
    with False show ?thesis by (simp add: queryVulnerabilities_def Let_def)
  next
    case (Inr requestPayload)
    show ?thesis
    proof (cases "k < length (deduplicatePackages packages)")
      case True
      from queryVulnerabilities_batched [OF assms True Inr] show ?thesis by simp
    next
      case False
      with \<open>packages \<noteq> []\<close> Inr show ?thesis by (simp add: queryVulnerabilities_def Let_def)
    qed
  qed
qed

lemma processAdvisories_returns: "\<exists>records. processAdvisories satisfies advs packages = Inr records"
  using processAdvisories_spec [of satisfies advs packages] by blast

lemma scan_returns:
  assumes "0 < k"
  shows "\<exists>sent bunAdvisories. scan k deliver satisfies packages = Some (sent, Inr bunAdvisories)"
proof -
  from queryVulnerabilities_returns [OF assms] obtain sent r
    where q: "queryVulnerabilities k deliver packages = Some (sent, r)" by blast
  show ?thesis
  proof (cases r)
    case (Inl e)
    with q show ?thesis by (simp add: scan_def try_catch_def)
  next
    case (Inr advs)
    from processAdvisories_returns obtain records
      where "processAdvisories satisfies advs packages = Inr records" by blast
    with q Inr show ?thesis by (simp add: scan_def try_catch_def)
  qed
qed

text \<open>
  Claim C1. For every package list, every behaviour of the delivery and of the version
  matcher, the scan returns a list of advisories and never an exception (nor does it fail
  to return); when the query throws, the scan returns the empty list, and otherwise what
  the processor returns. The same holds for every positive request size.
\<close>

theorem scan_fails_open:
  "(\<exists>sent bunAdvisories. scanner_scan deliver satisfies packages = Some (sent, Inr bunAdvisories)) \<and>
   (\<forall>sent e. queryVulnerabilities MAX_PACKAGES_PER_REQUEST deliver packages = Some (sent, Inl e) \<longrightarrow>
      scanner_scan deliver satisfies packages = Some (sent, Inr [])) \<and>
   (\<forall>sent advs. queryVulnerabilities MAX_PACKAGES_PER_REQUEST deliver packages = Some (sent, Inr advs) \<longrightarrow>
      scanner_scan deliver satisfies packages = Some (sent, processAdvisories satisfies advs packages)) \<and>
   (\<forall>k. 0 < k \<longrightarrow>
      (\<exists>sent bunAdvisories. scan k deliver satisfies packages = Some (sent, Inr bunAdvisories)))"
proof (intro conjI allI impI)
  have "0 < MAX_PACKAGES_PER_REQUEST" by (simp add: MAX_PACKAGES_PER_REQUEST_def)
  from scan_returns [OF this]
  show "\<exists>sent bunAdvisories. scanner_scan deliver satisfies packages = Some (sent, Inr bunAdvisories)"
    by (simp add: scanner_scan_def)
next
  fix sent e
  assume "queryVulnerabilities MAX_PACKAGES_PER_REQUEST deliver packages = Some (sent, Inl e)"
  then show "scanner_scan deliver satisfies packages = Some (sent, Inr [])"
    by (simp add: scanner_scan_def scan_def try_catch_def)
next
  fix sent advs
  assume q: "queryVulnerabilities MAX_PACKAGES_PER_REQUEST deliver packages = Some (sent, Inr advs)"
  from processAdvisories_returns obtain records
    where "processAdvisories satisfies advs packages = Inr records" by blast
  with q show "scanner_scan deliver satisfies packages = Some (sent, processAdvisories satisfies advs packages)"
    by (simp add: scanner_scan_def scan_def try_catch_def)
next
  fix k :: nat
  assume "0 < k"
  then show "\<exists>sent bunAdvisories. scan k deliver satisfies packages = Some (sent, Inr bunAdvisories)"
    by (rule scan_returns)
qed

lemma failing_query:
  "queryVulnerabilities MAX_PACKAGES_PER_REQUEST failing_registry [lodash_4_17_20] =
     Some ([[(''lodash'', [''4.17.20''])]], Inl (Error ''npm registry returned 500: Internal Server Error''))"
  by code_simp

theorem scan_fails_open_witness:
  "queryVulnerabilities MAX_PACKAGES_PER_REQUEST failing_registry [lodash_4_17_20] =
     Some ([[(''lodash'', [''4.17.20''])]], Inl (Error ''npm registry returned 500: Internal Server Error'')) \<and>
   scanner_scan failing_registry Bun_semver_satisfies [lodash_4_17_20] =
     Some ([[(''lodash'', [''4.17.20''])]], Inr [])"
  using scan_fails_open [of failing_registry Bun_semver_satisfies "[lodash_4_17_20]"] failing_query
  by simp

text \<open>
  Claim C8. When there are more unique packages than fit one request (batching is active:
  the payload of all packages was built, which the query does first), the query returns a
  result and not an error: a request is sent for every batch, also after a batch whose
  query threw, the result is the concatenation of what the batches add, and a batch whose
  query throws adds nothing.
\<close>

theorem queryInBatches_skips_failed_batch:
  "0 < k \<and> k < length (deduplicatePackages packages) \<and>
   buildRequestPayload (deduplicatePackages packages) = Inr requestPayload \<longrightarrow>
     queryVulnerabilities k deliver packages =
       Some (map the_payload (batches k (deduplicatePackages packages)),
             Inr (concat (map (batch_result deliver) (batches k (deduplicatePackages packages))))) \<and>
     (\<forall>batch\<in>set (batches k (deduplicatePackages packages)).
        buildRequestPayload batch = Inr (the_payload batch) \<and>
        (\<forall>e. executeBulkQuery deliver (the_payload batch) = Inl e \<longrightarrow> batch_result deliver batch = []) \<and>
        (\<forall>advs. executeBulkQuery deliver (the_payload batch) = Inr advs \<longrightarrow>
           batch_result deliver batch = advs))"
proof (intro impI conjI ballI allI)
  assume h: "0 < k \<and> k < length (deduplicatePackages packages) \<and>
   buildRequestPayload (deduplicatePackages packages) = Inr requestPayload"
  then show "queryVulnerabilities k deliver packages =
       Some (map the_payload (batches k (deduplicatePackages packages)),
             Inr (concat (map (batch_result deliver) (batches k (deduplicatePackages packages)))))"
    using queryVulnerabilities_batched [of k packages requestPayload deliver] by simp
  fix batch
  assume b: "batch \<in> set (batches k (deduplicatePackages packages))"
  from h have "\<forall>p\<in>set (deduplicatePackages packages). safe_name p"
    using buildRequestPayload_Inr_iff [of "deduplicatePackages packages"] by blast
  with batches_subset [OF b] have "\<forall>p\<in>set batch. safe_name p" by blast
  then show "buildRequestPayload batch = Inr (the_payload batch)" by (rule the_payload_safe)
next
  fix batch e
  assume "executeBulkQuery deliver (the_payload batch) = Inl e"
  then show "batch_result deliver batch = []" by (simp add: batch_result_def)
next
  fix batch advs
  assume "executeBulkQuery deliver (the_payload batch) = Inr advs"
  then show "batch_result deliver batch = advs" by (simp add: batch_result_def)
qed

lemma three_packages:
  "deduplicatePackages [lodash_4_17_19, lodash_4_17_20, lodash_4_17_20_again, axios_0_21_0] =
     [lodash_4_17_19, lodash_4_17_20, axios_0_21_0] \<and>
   buildRequestPayload [lodash_4_17_19, lodash_4_17_20, axios_0_21_0] =
     Inr [(''lodash'', [''4.17.19'', ''4.17.20'']), (''axios'', [''0.21.0''])] \<and>
   batches 2 [lodash_4_17_19, lodash_4_17_20, axios_0_21_0] =
     [[lodash_4_17_19, lodash_4_17_20], [axios_0_21_0]] \<and>
   the_payload [lodash_4_17_19, lodash_4_17_20] = [(''lodash'', [''4.17.19'', ''4.17.20''])] \<and>
   the_payload [axios_0_21_0] = [(''axios'', [''0.21.0''])] \<and>
   executeBulkQuery lodash_failing_registry [(''lodash'', [''4.17.19'', ''4.17.20''])] =
     Inl (Error ''npm registry returned 500: Internal Server Error'') \<and>
   executeBulkQuery lodash_failing_registry [(''axios'', [''0.21.0''])] = Inr [request_forgery]"
  by code_simp

theorem queryInBatches_skips_failed_batch_witness:
  "executeBulkQuery lodash_failing_registry [(''lodash'', [''4.17.19'', ''4.17.20''])] =
     Inl (Error ''npm registry returned 500: Internal Server Error'') \<and>
   queryVulnerabilities 2 lodash_failing_registry
       [lodash_4_17_19, lodash_4_17_20, lodash_4_17_20_again, axios_0_21_0] =
     Some ([[(''lodash'', [''4.17.19'', ''4.17.20''])], [(''axios'', [''0.21.0''])]],
           Inr [request_forgery])"
  using queryInBatches_skips_failed_batch
      [of 2 "[lodash_4_17_19, lodash_4_17_20, lodash_4_17_20_again, axios_0_21_0]"
        "[(''lodash'', [''4.17.19'', ''4.17.20'']), (''axios'', [''0.21.0''])]" lodash_failing_registry]
    three_packages
  by (simp add: batch_result_def)

section \<open>Batches and the single request\<close>

lemma batches_union: "0 < k \<Longrightarrow> (\<Union>b\<in>set (batches k xs). set b) = set xs"
proof -
  assume "0 < k"
  then have "set (concat (batches k xs)) = set xs" by (simp add: batches_concat)
  then show ?thesis by simp
qed

lemma versions_empty: "versions [] n = []"
  by (simp add: versions_def)

lemma versions_the_payload:
  assumes "\<forall>p\<in>set pkgs. safe_name p"
  shows "set (versions (the_payload pkgs) n) = version ` {p \<in> set pkgs. name p = n}"
proof -
  have "the_payload pkgs = foldl add_version [] pkgs"
    using assms by (simp add: the_payload_def buildRequestPayload_safe)
  then show ?thesis
    by (simp add: versions_foldl_set versions_empty)
qed

lemma requested_the_payload:
  assumes "\<forall>p\<in>set pkgs. safe_name p"
  shows "requested (the_payload pkgs) = (\<lambda>p. (name p, version p)) ` set pkgs"
  by (auto simp: requested_def versions_the_payload [OF assms])

lemma batches_cover_versions:
  assumes k: "0 < k" and safe: "\<forall>p\<in>set pkgs. safe_name p"
  shows "(\<Union>b\<in>set (batches k pkgs). set (versions (the_payload b) n)) =
           set (versions (the_payload pkgs) n)"
proof -
  have "set (versions (the_payload b) n) = version ` {p \<in> set b. name p = n}"
    if "b \<in> set (batches k pkgs)" for b
  proof -
    from batches_subset [OF that] safe have "\<forall>p\<in>set b. safe_name p" by blast
    then show ?thesis by (rule versions_the_payload)
  qed
  then have "(\<Union>b\<in>set (batches k pkgs). set (versions (the_payload b) n)) =
      (\<Union>b\<in>set (batches k pkgs). version ` {p \<in> set b. name p = n})"
    by simp
  also have "\<dots> = version ` {p \<in> (\<Union>b\<in>set (batches k pkgs). set b). name p = n}"
    by blast
  also have "\<dots> = set (versions (the_payload pkgs) n)"
    by (simp only: batches_union [OF k] versions_the_payload [OF safe])
  finally show ?thesis .
qed

lemma answers_per_pair_result:
  assumes "answers_per_pair deliver db" "\<forall>p\<in>set pkgs. safe_name p"
  shows "\<exists>advs. executeBulkQuery deliver (the_payload pkgs) = Inr advs \<and>
           set advs = (\<Union>p\<in>set pkgs. db (name p) (version p))"
proof -
  from assms(1) obtain advs where a: "executeBulkQuery deliver (the_payload pkgs) = Inr advs"
    "set advs = (\<Union>(n, v)\<in>requested (the_payload pkgs). db n v)"
    unfolding answers_per_pair_def by blast
  have "(\<Union>(n, v)\<in>requested (the_payload pkgs). db n v) = (\<Union>p\<in>set pkgs. db (name p) (version p))"
    by (simp add: requested_the_payload [OF assms(2)])
  with a show ?thesis by simp
qed

lemma answers_per_pair_batch:
  assumes "answers_per_pair deliver db" "\<forall>p\<in>set b. safe_name p"
  shows "set (batch_result deliver b) = (\<Union>p\<in>set b. db (name p) (version p))"
  using answers_per_pair_result [OF assms] by (auto simp: batch_result_def)

lemma answers_per_pair_batches:
  assumes a: "answers_per_pair deliver db" and k: "0 < k" and safe: "\<forall>p\<in>set pkgs. safe_name p"
  shows "set (concat (map (batch_result deliver) (batches k pkgs))) =
           (\<Union>p\<in>set pkgs. db (name p) (version p))"
proof -
  have "set (batch_result deliver b) = (\<Union>p\<in>set b. db (name p) (version p))"
    if "b \<in> set (batches k pkgs)" for b
  proof -
    from batches_subset [OF that] safe have "\<forall>p\<in>set b. safe_name p" by blast
    with a show ?thesis by (rule answers_per_pair_batch)
  qed
  then have "set (concat (map (batch_result deliver) (batches k pkgs))) =
      (\<Union>b\<in>set (batches k pkgs). \<Union>p\<in>set b. db (name p) (version p))"
    by simp
  also have "\<dots> = (\<Union>p\<in>(\<Union>b\<in>set (batches k pkgs). set b). db (name p) (version p))"
    by blast
  also have "\<dots> = (\<Union>p\<in>set pkgs. db (name p) (version p))"
    by (simp only: batches_union [OF k])
  finally show ?thesis .
qed

lemma batches_short: "b \<in> set (batches k xs) \<Longrightarrow> length b \<le> k"
proof (induction k xs rule: batches.induct)
  case (1 k xs)
  show ?case
  proof (cases "k = 0 \<or> xs = []")
    case True
    with 1 show ?thesis by (simp add: batches.simps)
  next
    case False
    with 1(2) have "b = take k xs \<or> b \<in> set (batches k (drop k xs))"
      by (simp add: batches_Cons)
    with 1(1) False show ?thesis by auto
  qed
qed

lemma requests_single:
  assumes "0 < (k::nat)" "0 < n" "n \<le> k"
  shows "(n + k - 1) div k = 1"
proof -
  from assms have a: "n + k - 1 = (n - 1) + k" by simp
  have "((n - 1) + k) div k = (n - 1) div k + 1"
    using assms(1) by (intro div_add_self2) simp
  with assms show ?thesis by (simp add: a)
qed

lemma queryVulnerabilities_requests:
  assumes k: "0 < k" and safe: "\<forall>p\<in>set packages. safe_name p"
  shows "\<exists>sent r. queryVulnerabilities k deliver packages = Some (sent, r) \<and>
           length sent = (length (deduplicatePackages packages) + k - 1) div k"
proof (cases "packages = []")
  case True
  with k show ?thesis by (simp add: queryVulnerabilities_def deduplicatePackages_def)
next
  case False
  let ?u = "deduplicatePackages packages"
  from safe dedup_subset [of packages] have su: "\<forall>p\<in>set ?u. safe_name p" by blast
  then have p: "buildRequestPayload ?u = Inr (the_payload ?u)" by (rule the_payload_safe)
  show ?thesis
  proof (cases "k < length ?u")
    case True
    from queryVulnerabilities_batched [OF k True p] show ?thesis
      by (simp add: batches_length [OF k])
  next
    case False
    then have le: "length ?u \<le> k" by simp
    from \<open>packages \<noteq> []\<close> have "packageKey ` set packages \<noteq> {}" by simp
    then have "0 < card (packageKey ` set packages)" by (simp add: card_gt_0_iff)
    then have pos: "0 < length ?u" by (simp add: dedup_length)
    have one: "(length ?u + k - 1) div k = 1"
      using k pos le by (rule requests_single)
    have "queryVulnerabilities k deliver packages =
        Some ([the_payload ?u], executeBulkQuery deliver (the_payload ?u))"
      using \<open>packages \<noteq> []\<close> p le by (rule queryVulnerabilities_single)
    then show ?thesis by (simp only: one) simp
  qed
qed

text \<open>
  Claim C7, as amended. For \<open>N\<close> unique packages and a request size \<open>K\<close> the query sends
  \<open>\<lceil>N/K\<rceil>\<close> requests. When \<open>N\<close> exceeds \<open>K\<close> these are the payloads of the consecutive batches of
  at most \<open>K\<close> packages, the result is the concatenation of what the batches return, and
  the batches together list under every name the versions that the single payload of all
  packages lists. Against a registry that answers per requested pair, the concatenation
  holds the same advisories as the answer to the single payload (an advisory may occur in
  it once per batch). The packages have names that no object inherits.
\<close>

theorem queryInBatches_covers_packages:
  "0 < k \<and> (\<forall>p\<in>set packages. safe_name p) \<longrightarrow>
     (\<exists>sent r. queryVulnerabilities k deliver packages = Some (sent, r) \<and>
        length sent = (length (deduplicatePackages packages) + k - 1) div k) \<and>
     (k < length (deduplicatePackages packages) \<longrightarrow>
        queryVulnerabilities k deliver packages =
          Some (map the_payload (batches k (deduplicatePackages packages)),
                Inr (concat (map (batch_result deliver) (batches k (deduplicatePackages packages))))) \<and>
        concat (batches k (deduplicatePackages packages)) = deduplicatePackages packages \<and>
        (\<forall>b\<in>set (batches k (deduplicatePackages packages)). b \<noteq> [] \<and> length b \<le> k) \<and>
        (\<forall>n. (\<Union>b\<in>set (batches k (deduplicatePackages packages)). set (versions (the_payload b) n)) =
           set (versions (the_payload (deduplicatePackages packages)) n)) \<and>
        (\<forall>db. answers_per_pair deliver db \<longrightarrow>
           (\<exists>whole. executeBulkQuery deliver (the_payload (deduplicatePackages packages)) = Inr whole \<and>
              set (concat (map (batch_result deliver) (batches k (deduplicatePackages packages)))) =
                set whole)))"
proof (intro impI conjI allI ballI)
  let ?u = "deduplicatePackages packages"
  assume h: "0 < k \<and> (\<forall>p\<in>set packages. safe_name p)"
  then have k: "0 < k" and safe: "\<forall>p\<in>set packages. safe_name p" by simp_all
  from safe dedup_subset [of packages] have su: "\<forall>p\<in>set ?u. safe_name p" by blast
  then have p: "buildRequestPayload ?u = Inr (the_payload ?u)" by (rule the_payload_safe)
  show "\<exists>sent r. queryVulnerabilities k deliver packages = Some (sent, r) \<and>
        length sent = (length ?u + k - 1) div k"
    using k safe by (rule queryVulnerabilities_requests)
  {
    assume big: "k < length ?u"
    show "queryVulnerabilities k deliver packages =
          Some (map the_payload (batches k ?u), Inr (concat (map (batch_result deliver) (batches k ?u))))"
      using k big p by (rule queryVulnerabilities_batched)
    show "concat (batches k ?u) = ?u" using k by (rule batches_concat)
    show "(\<Union>b\<in>set (batches k ?u). set (versions (the_payload b) n)) =
           set (versions (the_payload ?u) n)" for n
      using k su by (rule batches_cover_versions)
    show "\<exists>whole. executeBulkQuery deliver (the_payload ?u) = Inr whole \<and>
              set (concat (map (batch_result deliver) (batches k ?u))) = set whole"
      if a: "answers_per_pair deliver db" for db
      using answers_per_pair_result [OF a su] answers_per_pair_batches [OF a k su] by auto
    show "b \<noteq> []" if "b \<in> set (batches k ?u)" for b
      using that by (rule batches_nonempty)
    show "length b \<le> k" if "b \<in> set (batches k ?u)" for b
      using that by (rule batches_short)
  }
qed

lemma executeBulkQuery_lodash_registry:
  "executeBulkQuery lodash_registry payload =
     (if versions payload ''lodash'' = [] then Inr [] else Inr [prototype_pollution])"
proof -
  have e: "parse NpmAuditResponseSchema (JObject []) = Inr []"
    by code_simp
  show ?thesis
    by (simp add: executeBulkQuery_def lodash_registry_def try_catch_def e parse_standard)
qed

lemma lodash_registry_per_pair: "answers_per_pair lodash_registry lodash_db"
  unfolding answers_per_pair_def
proof
  fix payload
  show "\<exists>advs. executeBulkQuery lodash_registry payload = Inr advs \<and>
      set advs = (\<Union>(n, v)\<in>requested payload. lodash_db n v)"
  proof (cases "versions payload ''lodash'' = []")
    case True
    then have "(\<Union>(n, v)\<in>requested payload. lodash_db n v) = {}"
      by (auto simp: requested_def lodash_db_def)
    with True show ?thesis by (simp add: executeBulkQuery_lodash_registry)
  next
    case False
    then obtain v where "v \<in> set (versions payload ''lodash'')"
      by (cases "versions payload ''lodash''") auto
    then have "(''lodash'', v) \<in> requested payload" by (simp add: requested_def)
    then have "(\<Union>(n, v)\<in>requested payload. lodash_db n v) = {prototype_pollution}"
      by (auto simp: lodash_db_def split: if_splits)
    with False show ?thesis by (simp add: executeBulkQuery_lodash_registry)
  qed
qed

lemma safe_three: "\<forall>p\<in>set [lodash_4_17_19, lodash_4_17_20, axios_0_21_0]. safe_name p"
  by code_simp

lemma three_unique:
  "deduplicatePackages [lodash_4_17_19, lodash_4_17_20, axios_0_21_0] =
     [lodash_4_17_19, lodash_4_17_20, axios_0_21_0]"
  by code_simp

lemma three_batches:
  "batches 2 [lodash_4_17_19, lodash_4_17_20, axios_0_21_0] =
     [[lodash_4_17_19, lodash_4_17_20], [axios_0_21_0]] \<and>
   the_payload [lodash_4_17_19, lodash_4_17_20] = [(''lodash'', [''4.17.19'', ''4.17.20''])] \<and>
   the_payload [axios_0_21_0] = [(''axios'', [''0.21.0''])] \<and>
   the_payload [lodash_4_17_19, lodash_4_17_20, axios_0_21_0] =
     [(''lodash'', [''4.17.19'', ''4.17.20'']), (''axios'', [''0.21.0''])] \<and>
   batch_result lodash_registry [lodash_4_17_19, lodash_4_17_20] = [prototype_pollution] \<and>
   batch_result lodash_registry [axios_0_21_0] = [] \<and>
   executeBulkQuery lodash_registry [(''lodash'', [''4.17.19'', ''4.17.20'']), (''axios'', [''0.21.0''])] =
     Inr [prototype_pollution]"
  by code_simp

theorem queryInBatches_covers_packages_witness:
  "queryVulnerabilities 2 lodash_registry [lodash_4_17_19, lodash_4_17_20, axios_0_21_0] =
     Some ([[(''lodash'', [''4.17.19'', ''4.17.20''])], [(''axios'', [''0.21.0''])]],
           Inr [prototype_pollution]) \<and>
   executeBulkQuery lodash_registry
       (the_payload [lodash_4_17_19, lodash_4_17_20, axios_0_21_0]) = Inr [prototype_pollution] \<and>
   answers_per_pair lodash_registry lodash_db"
  using queryInBatches_covers_packages
      [of 2 "[lodash_4_17_19, lodash_4_17_20, axios_0_21_0]" lodash_registry]
    safe_three three_unique three_batches lodash_registry_per_pair
  by simp

lemma nat_of_digits_snoc: "nat_of_digits (s @ [c]) = 10 * nat_of_digits s + (of_char c - 48)"
  by (simp add: nat_of_digits_def)

lemma nat_of_digits_string_of_nat: "nat_of_digits (string_of_nat n) = n"
proof (induction n rule: string_of_nat.induct)
  case (1 n)
  show ?case
  proof (cases "n < 10")
    case True
    then have "string_of_nat n = [digit_char n]" by (subst string_of_nat.simps) simp
    with True show ?thesis by (simp add: nat_of_digits_def digit_char_def)
  next
    case False
    then have s: "string_of_nat n = string_of_nat (n div 10) @ [digit_char (n mod 10)]"
      by (subst string_of_nat.simps) simp
    have "of_char (digit_char (n mod 10)) - 48 = n mod 10"
      by (simp add: digit_char_def)
    with 1 False show ?thesis by (simp only: s nat_of_digits_snoc) simp
  qed
qed

lemma string_of_nat_inj: "string_of_nat i = string_of_nat j \<Longrightarrow> i = j"
  by (metis nat_of_digits_string_of_nat)

lemma many_lodash_keys: "distinct (map packageKey many_lodash)"
proof -
  have "map packageKey many_lodash = map (\<lambda>i. ''lodash@4.17.'' @ string_of_nat i) [0..<1001]"
    by (simp add: many_lodash_def packageKey_def comp_def)
  moreover have "inj_on (\<lambda>i. ''lodash@4.17.'' @ string_of_nat i) (set [0..<1001])"
    by (rule inj_onI) (simp add: string_of_nat_inj)
  ultimately show ?thesis by (simp add: distinct_map)
qed

lemma names_of_map:
  "\<forall>p\<in>set (map (\<lambda>i. \<lparr>name = n, version = f i, requestedRange = r, tarball = t\<rparr>) xs). name p = n"
  by simp

lemma many_lodash_names: "\<forall>p\<in>set many_lodash. name p = ''lodash''"
  unfolding many_lodash_def by (rule names_of_map)

lemma lodash_safe: "name p = ''lodash'' \<Longrightarrow> safe_name p"
  by (simp add: safe_name_def Object_prototype_def)

lemma batch_result_lodash:
  assumes "b \<noteq> []" "\<forall>p\<in>set b. name p = ''lodash''"
  shows "batch_result lodash_registry b = [prototype_pollution]"
proof -
  from assms(2) have safe: "\<forall>p\<in>set b. safe_name p" by (simp add: lodash_safe)
  from assms obtain p where "p \<in> set b" "name p = ''lodash''"
    by (cases b) auto
  then have "version p \<in> version ` {p \<in> set b. name p = ''lodash''}" by blast
  then have "set (versions (the_payload b) ''lodash'') \<noteq> {}"
    by (simp only: versions_the_payload [OF safe]) blast
  then have "versions (the_payload b) ''lodash'' \<noteq> []" by auto
  then show ?thesis by (simp add: batch_result_def executeBulkQuery_lodash_registry)
qed

lemma batches_two:
  assumes "0 < k" "k < length xs" "length xs \<le> 2 * k"
  shows "batches k xs = [take k xs, drop k xs]"
proof -
  from assms have ne: "xs \<noteq> []" "drop k xs \<noteq> []" by auto
  have "batches k xs = take k xs # batches k (drop k xs)"
    using assms(1) ne(1) by (rule batches_Cons)
  also have "batches k (drop k xs) = take k (drop k xs) # batches k (drop k (drop k xs))"
    using assms(1) ne(2) by (rule batches_Cons)
  also from assms(3) have "take k (drop k xs) = drop k xs" by simp
  also from assms(3) have "drop k (drop k xs) = []" by simp
  finally show ?thesis by simp
qed

text \<open>
  With the request size 1000 and 1001 versions of \<open>lodash\<close>, no batch fails and both
  batches return the advisory: the concatenation holds it twice, the answer to the single
  payload once.
\<close>

theorem queryInBatches_repeats_advisory:
  "map_option snd (queryVulnerabilities MAX_PACKAGES_PER_REQUEST lodash_registry many_lodash) =
     Some (Inr [prototype_pollution, prototype_pollution]) \<and>
   length (deduplicatePackages many_lodash) = 1001 \<and>
   executeBulkQuery lodash_registry (the_payload (deduplicatePackages many_lodash)) =
     Inr [prototype_pollution]"
proof -
  let ?k = "MAX_PACKAGES_PER_REQUEST"
  have u: "deduplicatePackages many_lodash = many_lodash"
    using many_lodash_keys by (rule dedup_distinct_id)
  have len: "length many_lodash = 1001" by (simp add: many_lodash_def)
  have k: "0 < ?k" "?k < length many_lodash" "length many_lodash \<le> 2 * ?k"
    by (simp_all add: len MAX_PACKAGES_PER_REQUEST_def)
  have safe: "\<forall>p\<in>set many_lodash. safe_name p"
    using many_lodash_names by (simp add: lodash_safe)
  then have p: "buildRequestPayload (deduplicatePackages many_lodash) = Inr (the_payload many_lodash)"
    by (simp only: u the_payload_safe)
  have bs: "batches ?k many_lodash = [take ?k many_lodash, drop ?k many_lodash]"
    using k by (rule batches_two)
  have names: "\<forall>p\<in>set b. name p = ''lodash''" if "set b \<subseteq> set many_lodash" for b
    using that many_lodash_names by blast
  have r1: "batch_result lodash_registry (take ?k many_lodash) = [prototype_pollution]"
  proof (rule batch_result_lodash)
    show "take ?k many_lodash \<noteq> []" using k by auto
    show "\<forall>p\<in>set (take ?k many_lodash). name p = ''lodash''"
      by (rule names) (rule set_take_subset)
  qed
  have r2: "batch_result lodash_registry (drop ?k many_lodash) = [prototype_pollution]"
  proof (rule batch_result_lodash)
    show "drop ?k many_lodash \<noteq> []" using k by auto
    show "\<forall>p\<in>set (drop ?k many_lodash). name p = ''lodash''"
      by (rule names) (rule set_drop_subset)
  qed
  have q: "queryVulnerabilities ?k lodash_registry many_lodash =
      Some (map the_payload (batches ?k many_lodash),
            Inr (concat (map (batch_result lodash_registry) (batches ?k many_lodash))))"
    using queryVulnerabilities_batched [of ?k many_lodash "the_payload many_lodash" lodash_registry]
      k p by (simp only: u)
  have whole: "batch_result lodash_registry many_lodash = [prototype_pollution]"
  proof (rule batch_result_lodash)
    show "many_lodash \<noteq> []" using len by auto
    show "\<forall>p\<in>set many_lodash. name p = ''lodash''" by (rule many_lodash_names)
  qed
  have w: "executeBulkQuery lodash_registry (the_payload many_lodash) = Inr [prototype_pollution]"
  proof (cases "versions (the_payload many_lodash) ''lodash'' = []")
    case True
    with whole show ?thesis by (simp add: batch_result_def executeBulkQuery_lodash_registry)
  next
    case False
    then show ?thesis by (simp add: executeBulkQuery_lodash_registry)
  qed
  show ?thesis
    by (simp add: q bs r1 r2 u len w)
qed

end
